theory Spec2Isabelle
  imports Main
begin

section \<open>Python strings\<close>

text \<open>
  The converter \<^verbatim>\<open>doc2md.py\<close> works on Python 3 \<^verbatim>\<open>str\<close> values. A string is
  modelled as a list of characters; a \<^typ>\<open>char\<close> is read as the code point of the
  same number, so the model covers the texts whose code points lie in U+0000..U+00FF.
  The character classes below are those of CPython for that range.
\<close>

abbreviation NL :: char where "NL \<equiv> CHR 0x0A"
abbreviation CR :: char where "CR \<equiv> CHR 0x0D"
abbreviation TAB :: char where "TAB \<equiv> CHR 0x09"
abbreviation SP :: char where "SP \<equiv> CHR 0x20"

text \<open>\<^verbatim>\<open>str.isspace\<close> on one character: U+0009..U+000D, U+001C..U+001F, U+0020, U+0085, U+00A0.\<close>

definition isspace :: "char \<Rightarrow> bool" where
  "isspace c = (c \<in> set [CHR 0x09, CHR 0x0A, CHR 0x0B, CHR 0x0C, CHR 0x0D,
                          CHR 0x1C, CHR 0x1D, CHR 0x1E, CHR 0x1F, CHR 0x20, CHR 0x85, CHR 0xA0])"

text \<open>The line boundaries of \<^verbatim>\<open>str.splitlines\<close>: every white-space character above except
  tab, U+001F, space and U+00A0.\<close>

definition islinebreak :: "char \<Rightarrow> bool" where
  "islinebreak c = (c \<in> set [CHR 0x0A, CHR 0x0B, CHR 0x0C, CHR 0x0D,
                              CHR 0x1C, CHR 0x1D, CHR 0x1E, CHR 0x85])"

text \<open>\<^verbatim>\<open>s.lstrip()\<close>, \<^verbatim>\<open>s.rstrip()\<close>, \<^verbatim>\<open>s.strip()\<close>.\<close>

definition lstrip :: "string \<Rightarrow> string" where
  "lstrip s = dropWhile isspace s"

definition rstrip :: "string \<Rightarrow> string" where
  "rstrip s = rev (dropWhile isspace (rev s))"

definition strip :: "string \<Rightarrow> string" where
  "strip s = lstrip (rstrip s)"

text \<open>\<^verbatim>\<open>s.startswith(p)\<close>.\<close>

definition startswith :: "string \<Rightarrow> string \<Rightarrow> bool" where
  "startswith s p = (take (length p) s = p)"

text \<open>\<^verbatim>\<open>s.expandtabs()\<close> with the default tab size 8: the column counter restarts after
  a line feed or a carriage return.\<close>

fun expandtabs_from :: "nat \<Rightarrow> string \<Rightarrow> string" where
  "expandtabs_from col [] = []"
| "expandtabs_from col (c # cs) =
     (if c = TAB then
        (let incr = 8 - col mod 8 in replicate incr SP @ expandtabs_from (col + incr) cs)
      else c # expandtabs_from (if c = NL \<or> c = CR then 0 else col + 1) cs)"

definition expandtabs :: "string \<Rightarrow> string" where
  "expandtabs s = expandtabs_from 0 s"

text \<open>\<^verbatim>\<open>s.splitlines()\<close>: a line runs up to the next line boundary; a carriage return
  directly followed by a line feed is one boundary; a boundary at the very end opens no
  further line, and the empty string has no line.\<close>

fun splitlines_from :: "string \<Rightarrow> string \<Rightarrow> string list" where
  "splitlines_from cur [] = (if cur = [] then [] else [cur])"
| "splitlines_from cur [c] = (if islinebreak c then [cur] else [cur @ [c]])"
| "splitlines_from cur (c # d # cs) =
     (if islinebreak c then
        (if c = CR \<and> d = NL then cur # splitlines_from [] cs
         else cur # splitlines_from [] (d # cs))
      else splitlines_from (cur @ [c]) (d # cs))"

definition splitlines :: "string \<Rightarrow> string list" where
  "splitlines s = splitlines_from [] s"

text \<open>\<^verbatim>\<open>s.split(sep)\<close> for a separator of one character.\<close>

fun split :: "char \<Rightarrow> string \<Rightarrow> string list" where
  "split sep [] = [[]]"
| "split sep (c # cs) =
     (if c = sep then [] # split sep cs
      else (case split sep cs of [] \<Rightarrow> [[c]] | l # ls \<Rightarrow> (c # l) # ls))"

text \<open>\<^verbatim>\<open>sep.join(xs)\<close>.\<close>

fun join :: "string \<Rightarrow> string list \<Rightarrow> string" where
  "join sep [] = []"
| "join sep [x] = x"
| "join sep (x # y # ys) = x @ sep @ join sep (y # ys)"

text \<open>\<^verbatim>\<open>s.partition(sep)\<close> for a separator of one character: the part before the first
  separator, the separator, the part after it; without a separator the string and two
  empty strings.\<close>

definition partition_str :: "string \<Rightarrow> char \<Rightarrow> string \<times> string \<times> string" where
  "partition_str s sep =
     (if sep \<in> set s
      then (takeWhile (\<lambda>c. c \<noteq> sep) s, [sep], tl (dropWhile (\<lambda>c. c \<noteq> sep) s))
      else (s, [], []))"

text \<open>\<^verbatim>\<open>s.lower()\<close>: the upper-case letters of the range are A..Z, U+00C0..U+00D6 and
  U+00D8..U+00DE, each 32 below its lower-case letter.\<close>

definition lower_char :: "char \<Rightarrow> char" where
  "lower_char c =
     (let n = (of_char c :: nat)
      in if (65 \<le> n \<and> n \<le> 90) \<or> (192 \<le> n \<and> n \<le> 214) \<or> (216 \<le> n \<and> n \<le> 222)
         then char_of (n + 32) else c)"

definition lower :: "string \<Rightarrow> string" where
  "lower s = map lower_char s"

text \<open>\<^verbatim>\<open>s.replace(old, new)\<close>: the occurrences of \<open>old\<close> are replaced from left to right
  without overlap; an empty \<open>old\<close> matches before every character and at the end.\<close>

fun replace :: "string \<Rightarrow> string \<Rightarrow> string \<Rightarrow> string" where
  "replace [] old new = (if old = [] then new else [])"
| "replace (c # cs) old new =
     (if old = [] then new @ c # replace cs old new
      else if startswith (c # cs) old then new @ replace (drop (length old - 1) cs) old new
      else c # replace cs old new)"

section \<open>The converter\<close>

text \<open>The exceptions the functions below can raise by themselves.\<close>

datatype error = IndexError | UnboundLocalError

text \<open>\<^verbatim>\<open>sys.maxsize\<close> of a 64-bit CPython.\<close>

definition sys_maxsize :: nat where
  "sys_maxsize = 9223372036854775807"

subsection \<open>\<^verbatim>\<open>doctrim\<close>\<close>

text \<open>The loop that lowers \<open>indent\<close> to the least indentation of the lines that are not blank.\<close>

fun min_indent :: "nat \<Rightarrow> string list \<Rightarrow> nat" where
  "min_indent indent [] = indent"
| "min_indent indent (line # lines) =
     (let stripped = lstrip line
      in if stripped \<noteq> [] then min_indent (min indent (length line - length stripped)) lines
         else min_indent indent lines)"

text \<open>\<^verbatim>\<open>while trimmed and not trimmed[0]: trimmed.pop(0)\<close> and its mirror image on the
  last element.\<close>

fun pop_leading_blank :: "string list \<Rightarrow> string list" where
  "pop_leading_blank [] = []"
| "pop_leading_blank (l # ls) = (if l = [] then pop_leading_blank ls else l # ls)"

definition pop_trailing_blank :: "string list \<Rightarrow> string list" where
  "pop_trailing_blank ls = rev (pop_leading_blank (rev ls))"

text \<open>The argument is \<open>None\<close> for Python's \<^verbatim>\<open>None\<close>. \<^verbatim>\<open>lines[0]\<close> raises on an empty list.\<close>

definition doctrim :: "string option \<Rightarrow> error + string" where
  "doctrim docstring =
     (case docstring of
        None \<Rightarrow> Inr []
      | Some ds \<Rightarrow>
          if ds = [] then Inr []
          else
            (let lines = splitlines (expandtabs ds)
             in case lines of
                  [] \<Rightarrow> Inl IndexError
                | first # others \<Rightarrow>
                    (let indent = min_indent sys_maxsize others;
                         trimmed = strip first #
                           (if indent < sys_maxsize
                            then map (\<lambda>line. rstrip (drop indent line)) others else [])
                     in Inr (join [NL] (pop_leading_blank (pop_trailing_blank trimmed))))))"

subsection \<open>\<^verbatim>\<open>unindent\<close>, \<^verbatim>\<open>code_block\<close>, \<^verbatim>\<open>doctest2md\<close>, \<^verbatim>\<open>doc_code_block\<close>\<close>

definition unindent :: "string list \<Rightarrow> string list" where
  "unindent lines =
     (let indent = min_indent sys_maxsize lines
      in if indent < sys_maxsize then map (\<lambda>line. drop indent line) lines else [])"

definition code_block :: "string list \<Rightarrow> string \<Rightarrow> string list" where
  "code_block lines language = [''```'' @ language] @ lines @ [''```'']"

text \<open>The test of one line in \<^verbatim>\<open>doctest2md\<close>, and the loop that leaves at the first line
  failing it.\<close>

definition not_prompt_line :: "string \<Rightarrow> bool" where
  "not_prompt_line line =
     (\<not> startswith line ''>>> '' \<and> \<not> startswith line ''... '' \<and> line \<notin> set [''>>>'', ''...''])"

fun only_code :: "string list \<Rightarrow> bool" where
  "only_code [] = True"
| "only_code (line # lines) = (if not_prompt_line line then False else only_code lines)"

definition doctest2md :: "string list \<Rightarrow> string list" where
  "doctest2md lines0 =
     (let lines = unindent lines0;
          is_only_code = only_code lines
      in if is_only_code then map (\<lambda>line. drop 4 line) lines else lines)"

definition doc_code_block :: "string list \<Rightarrow> string \<Rightarrow> string list" where
  "doc_code_block lines language =
     (let lines' = (if language = ''python'' then doctest2md lines else lines)
      in code_block lines' language)"

subsection \<open>\<^verbatim>\<open>find_sections\<close> and \<^verbatim>\<open>make_toc\<close>\<close>

text \<open>\<^verbatim>\<open>re.compile('^#+ ').match(line)\<close>: the longest run of \<open>#\<close> at the start is not empty
  and a space follows it (a shorter run is followed by \<open>#\<close>, so backtracking finds nothing
  more).\<close>

definition reg_section_match :: "string \<Rightarrow> bool" where
  "reg_section_match line =
     (let hashes = takeWhile (\<lambda>c. c = CHR ''#'') line;
          rest = dropWhile (\<lambda>c. c = CHR ''#'') line
      in hashes \<noteq> [] \<and> (case rest of [] \<Rightarrow> False | c # _ \<Rightarrow> c = SP))"

fun find_sections :: "string list \<Rightarrow> (nat \<times> string) list" where
  "find_sections [] = []"
| "find_sections (line # lines) =
     (if reg_section_match line
      then (case partition_str line SP of (part0, part1, part2) \<Rightarrow>
              (length part0, part2) # find_sections lines)
      else find_sections lines)"

text \<open>\<^verbatim>\<open>min(n for n,t in sections)\<close> on a list that is not empty.\<close>

fun min_depth :: "nat \<times> string \<Rightarrow> (nat \<times> string) list \<Rightarrow> nat" where
  "min_depth (n, t) [] = n"
| "min_depth (n, t) (s # ss) = min n (min_depth s ss)"

text \<open>One turn of the loop of \<^verbatim>\<open>make_toc\<close>.\<close>

definition toc_ref :: "nat \<Rightarrow> nat \<times> string \<Rightarrow> string" where
  "toc_ref outer s =
     (case s of (ind, sec) \<Rightarrow>
        (let ref = lower sec;
             ref = replace ref '' '' ''-'';
             ref = replace ref ''?'' []
         in concat (replicate (ind - outer) ''    '') @ ''- ['' @ sec @ ''](#'' @ ref @ '')''))"

definition make_toc :: "(nat \<times> string) list \<Rightarrow> string list" where
  "make_toc sections =
     (case sections of
        [] \<Rightarrow> []
      | s # ss \<Rightarrow> (let outer = min_depth s ss in map (toc_ref outer) sections))"

subsection \<open>\<^verbatim>\<open>doc2md\<close>\<close>

text \<open>The variables of the loop over the body lines; \<open>code\<close> and \<open>language\<close> are unbound
  (\<open>None\<close>) until the first block starts, and keep their last value afterwards.\<close>

record conv_state =
  md :: "string list"
  is_code :: bool
  code :: "string list option"
  language :: "string option"

definition loop_step :: "conv_state \<Rightarrow> string \<Rightarrow> error + conv_state" where
  "loop_step st line =
     (let trimmed = lstrip line
      in if is_code st then
           (if line \<noteq> [] then
              (case code st of
                 None \<Rightarrow> Inl UnboundLocalError
               | Some c \<Rightarrow> Inr (st\<lparr>code := Some (c @ [line])\<rparr>))
            else
              (case (code st, language st) of
                 (Some c, Some l) \<Rightarrow>
                   Inr (st\<lparr>is_code := False, md := md st @ doc_code_block c l @ [line]\<rparr>)
               | _ \<Rightarrow> Inl UnboundLocalError))
         else if startswith trimmed ''>>> '' then
           Inr (st\<lparr>is_code := True, language := Some ''python'', code := Some [line]\<rparr>)
         else if startswith trimmed ''$ '' then
           Inr (st\<lparr>is_code := True, language := Some ''bash'', code := Some [line]\<rparr>)
         else Inr (st\<lparr>md := md st @ [line]\<rparr>))"

fun body_loop :: "conv_state \<Rightarrow> string list \<Rightarrow> error + conv_state" where
  "body_loop st [] = Inr st"
| "body_loop st (line # lines) =
     (case loop_step st line of Inl e \<Rightarrow> Inl e | Inr st' \<Rightarrow> body_loop st' lines)"

text \<open>\<^verbatim>\<open>if is_code: md += doc_code_block(code, language)\<close> after the loop.\<close>

definition close_block :: "conv_state \<Rightarrow> error + string list" where
  "close_block st =
     (if is_code st then
        (case (code st, language st) of
           (Some c, Some l) \<Rightarrow> Inr (md st @ doc_code_block c l)
         | _ \<Rightarrow> Inl UnboundLocalError)
      else Inr (md st))"

text \<open>The list \<open>md\<close> at the end of \<^verbatim>\<open>doc2md\<close>; \<^verbatim>\<open>lines.pop(0)\<close> raises on an empty list.\<close>

definition doc2md_lines :: "string option \<Rightarrow> string \<Rightarrow> error + string list" where
  "doc2md_lines docstr title =
     (case doctrim docstr of
        Inl e \<Rightarrow> Inl e
      | Inr text \<Rightarrow>
          (let lines = split NL text;
               sections = find_sections lines;
               level = (case sections of [] \<Rightarrow> 2 | s # ss \<Rightarrow> min_depth s ss)
           in case lines of
                [] \<Rightarrow> Inl IndexError
              | first # others \<Rightarrow>
                  (let md0 = [replicate (max (level - 1) 1) (CHR ''#'') @ '' '' @ title,
                              [], first, []] @ make_toc sections
                   in case body_loop \<lparr>md = md0, is_code = False, code = None, language = None\<rparr>
                             others of
                        Inl e \<Rightarrow> Inl e
                      | Inr st \<Rightarrow> close_block st)))"

definition doc2md :: "string option \<Rightarrow> string \<Rightarrow> error + string" where
  "doc2md docstr title =
     (case doc2md_lines docstr title of Inl e \<Rightarrow> Inl e | Inr ls \<Rightarrow> Inr (join [NL] ls))"

text \<open>The loop reads \<open>code\<close> and \<open>language\<close> only inside a block; this is the state of
  the variables in which those reads succeed.\<close>

definition bound_in_block :: "conv_state \<Rightarrow> bool" where
  "bound_in_block st = (is_code st \<longrightarrow> code st \<noteq> None \<and> language st \<noteq> None)"

text \<open>A line as \<^verbatim>\<open>splitlines\<close> returns it has no line boundary in it.\<close>

definition breakfree :: "string \<Rightarrow> bool" where
  "breakfree l = (\<forall>c \<in> set l. \<not> islinebreak c)"

section \<open>Running the model on concrete texts\<close>

lemmas run_defs =
  doc2md_def doc2md_lines_def doctrim_def splitlines_def expandtabs_def islinebreak_def
  isspace_def lstrip_def rstrip_def strip_def startswith_def sys_maxsize_def
  pop_trailing_blank_def unindent_def code_block_def not_prompt_line_def doctest2md_def
  doc_code_block_def reg_section_match_def partition_str_def make_toc_def toc_ref_def
  loop_step_def close_block_def Let_def lower_def lower_char_def char_of_def bit_Suc_0_iff

section \<open>Code blocks\<close>

text \<open>
  C9 as stated: formatting a block adds three lines, so the formatted block has exactly
  three more lines than the collected one. The one-line block \<open>$ ls\<close> is formatted to
  three lines, not four.
\<close>

theorem code_block_three_lines_counterexample:
  "length (code_block [''$ ls''] ''bash'') \<noteq> length [''$ ls''] + 3"
  by (simp add: code_block_def)

text \<open>
  C9, amended: formatting a block puts the opening fence (three backquotes and the language
  tag) before the collected lines and the closing fence (three backquotes) after them: two
  lines of overhead, so the formatted block has exactly two more lines than the collected
  one.
\<close>

theorem code_block_two_fences:
  "code_block lines lang = (''```'' @ lang) # lines @ [''```'']
   \<and> length (code_block lines lang) = length lines + 2"
  by (simp add: code_block_def)

text \<open>
  C2 as stated: the lines of a bash block are unindented by \<open>unindent\<close> before they are
  fenced. The text below has a shell transcript indented by two spaces; the converter
  fences its lines with the two spaces, while \<open>unindent\<close> would have removed them.
\<close>

theorem bash_block_unindent_counterexample:
  "doc2md_lines (Some ''T\<newline>\<newline>  $ ls\<newline>  out\<newline>\<newline>end'') ''t''
     = Inr [''# t'', [], ''T'', [], [], ''```bash'', ''  $ ls'', ''  out'', ''```'', [], ''end'']
   \<and> doc_code_block [''  $ ls'', ''  out''] ''bash''
       \<noteq> code_block (unindent [''  $ ls'', ''  out'']) ''bash''"
  by (simp add: run_defs)

text \<open>
  C2, amended: the lines of a block classified as bash are fenced exactly as they were
  collected: no indentation is removed and no prompt marker is stripped.
\<close>

theorem bash_block_fenced_verbatim:
  "doc_code_block lines ''bash'' = ''```bash'' # lines @ [''```'']"
  by (simp add: doc_code_block_def code_block_def)

section \<open>The worked example of the specification\<close>

text \<open>
  C1 as stated: for the docstring \<open>Title line\n\n>>> 1 + 1\n2\n\<close> and the title \<open>demo\<close> the
  fenced python block holds the single line \<open>1 + 1\<close> and the line \<open>2\<close> follows the closing
  fence. In the converter's output no line is \<open>1 + 1\<close>, and the lines after the fifth are
  the fenced block of both lines with the prompt kept, so \<open>2\<close> lies inside the fence.
\<close>

theorem demo_prompt_stripped_counterexample:
  "''1 + 1'' \<notin> set (projr (doc2md_lines
       (Some ''Title line\<newline>\<newline>>>> 1 + 1\<newline>2\<newline>'') ''demo''))
   \<and> drop 5 (projr (doc2md_lines
       (Some ''Title line\<newline>\<newline>>>> 1 + 1\<newline>2\<newline>'') ''demo''))
       = code_block [''>>> 1 + 1'', ''2''] ''python''"
  by (simp add: run_defs)

text \<open>
  C1, amended: for that docstring and title the document starts with the heading \<open># demo\<close>
  and its body ends in a fenced block tagged python whose content is the two lines
  \<open>>>> 1 + 1\<close> and \<open>2\<close>: the line \<open>2\<close> is not empty, so it is consumed into the block, and
  since it is no prompt line the prompt marker of the first line is kept. Nothing follows
  the closing fence.
\<close>

theorem demo_document:
  "doc2md_lines (Some ''Title line\<newline>\<newline>>>> 1 + 1\<newline>2\<newline>'') ''demo''
     = Inr [''# demo'', [], ''Title line'', [], [],
            ''```python'', ''>>> 1 + 1'', ''2'', ''```'']
   \<and> doc2md (Some ''Title line\<newline>\<newline>>>> 1 + 1\<newline>2\<newline>'') ''demo''
     = Inr ''# demo\<newline>\<newline>Title line\<newline>\<newline>\<newline>```python\<newline>>>> 1 + 1\<newline>2\<newline>```''"
  by (simp add: run_defs)

section \<open>Python-tagged blocks\<close>

lemma only_code_iff: "only_code ls \<longleftrightarrow> (\<forall>l \<in> set ls. \<not> not_prompt_line l)"
  by (induction ls) auto

text \<open>
  C4: a block tagged python is first unindented by \<open>unindent\<close>; if every unindented line
  starts with \<open>>>> \<close> or with \<open>... \<close> or is exactly \<open>>>>\<close> or \<open>...\<close>, the first four
  characters are dropped from every line before the fences are put around them; if some
  line fails the test, the unindented lines are fenced as they are, prompts included.
\<close>

theorem python_block_prompts:
  "doc_code_block lines ''python'' =
     (if (\<forall>l \<in> set (unindent lines).
            startswith l ''>>> '' \<or> startswith l ''... '' \<or> l = ''>>>'' \<or> l = ''...'')
      then code_block (map (drop 4) (unindent lines)) ''python''
      else code_block (unindent lines) ''python'')"
  by (auto simp: doc_code_block_def doctest2md_def Let_def only_code_iff not_prompt_line_def)

theorem python_block_prompts_witness:
  "doc_code_block [''  >>> x'', ''  ... y'', ''  >>>''] ''python''
     = [''```python'', ''x'', ''y'', [], ''```'']
   \<and> doc_code_block [''>>> x'', ''not-a-prompt-line''] ''python''
     = [''```python'', ''>>> x'', ''not-a-prompt-line'', ''```'']"
  using python_block_prompts [of "[''  >>> x'', ''  ... y'', ''  >>>'']"]
    python_block_prompts [of "[''>>> x'', ''not-a-prompt-line'']"]
  by (simp add: unindent_def lstrip_def isspace_def sys_maxsize_def startswith_def
      code_block_def)

section \<open>Headings\<close>

lemma takeWhile_eq_replicate:
  "takeWhile (\<lambda>c. c = a) xs = replicate (length (takeWhile (\<lambda>c. c = a) xs)) a"
  by (induction xs) auto

lemma hashes_run_takeWhile:
  "takeWhile (\<lambda>c. c = CHR ''#'') (replicate n (CHR ''#'') @ SP # t) = replicate n (CHR ''#'')"
  by (induction n) auto

lemma hashes_run_dropWhile:
  "dropWhile (\<lambda>c. c = CHR ''#'') (replicate n (CHR ''#'') @ SP # t) = SP # t"
  by (induction n) auto

lemma reg_section_match_run:
  "0 < n \<Longrightarrow> reg_section_match (replicate n (CHR ''#'') @ SP # t)"
  by (simp add: reg_section_match_def hashes_run_takeWhile hashes_run_dropWhile)

lemma reg_section_match_shape:
  assumes "reg_section_match line"
  shows "\<exists>n t. 0 < n \<and> line = replicate n (CHR ''#'') @ SP # t"
proof -
  let ?h = "takeWhile (\<lambda>c. c = CHR ''#'') line"
  let ?r = "dropWhile (\<lambda>c. c = CHR ''#'') line"
  from assms have h: "?h \<noteq> []" and r: "\<exists>t. ?r = SP # t"
    by (auto simp: reg_section_match_def Let_def split: list.splits)
  then obtain t where t: "?r = SP # t" by blast
  have "line = ?h @ ?r" by simp
  also have "?h = replicate (length ?h) (CHR ''#'')" by (rule takeWhile_eq_replicate)
  finally have "line = replicate (length ?h) (CHR ''#'') @ SP # t" using t by simp
  moreover have "0 < length ?h" using h by simp
  ultimately show ?thesis by blast
qed

lemma partition_heading:
  "partition_str (replicate n (CHR ''#'') @ SP # t) SP = (replicate n (CHR ''#''), [SP], t)"
  by (induction n) (auto simp: partition_str_def)

lemma find_sections_append:
  "find_sections (xs @ ys) = find_sections xs @ find_sections ys"
  by (induction xs) (auto split: prod.splits)

lemma find_sections_heading:
  "0 < n \<Longrightarrow> find_sections [replicate n (CHR ''#'') @ SP # t] = [(n, t)]"
  by (simp add: reg_section_match_run partition_heading)

text \<open>
  C7: a line is classified as a heading exactly when it starts with one or more \<open>#\<close>
  directly followed by a space; the depth recorded for it is the number of those \<open>#\<close> and
  the title is all that follows that space, unchanged; a line that is no heading adds
  nothing. \<open>## Foo\<close> gives depth 2 and title \<open>Foo\<close>, and \<open>###Foo\<close> is no heading.
\<close>

theorem find_sections_heading_iff:
  "(reg_section_match line \<longleftrightarrow> (\<exists>n t. 0 < n \<and> line = replicate n (CHR ''#'') @ SP # t))
   \<and> (0 < n \<longrightarrow>
        find_sections (pre @ [replicate n (CHR ''#'') @ SP # t] @ post)
          = find_sections pre @ [(n, t)] @ find_sections post)
   \<and> (\<not> reg_section_match line \<longrightarrow>
        find_sections (pre @ [line] @ post) = find_sections pre @ find_sections post)
   \<and> find_sections [''## Foo''] = [(2, ''Foo'')]
   \<and> find_sections [''###Foo''] = []"
proof -
  have "reg_section_match line \<longleftrightarrow> (\<exists>n t. 0 < n \<and> line = replicate n (CHR ''#'') @ SP # t)"
    using reg_section_match_shape reg_section_match_run by blast
  moreover have "0 < n \<longrightarrow>
        find_sections (pre @ [replicate n (CHR ''#'') @ SP # t] @ post)
          = find_sections pre @ [(n, t)] @ find_sections post"
    using find_sections_heading [of n t] by (simp only: find_sections_append) simp
  moreover have "\<not> reg_section_match line \<longrightarrow>
        find_sections (pre @ [line] @ post) = find_sections pre @ find_sections post"
    by (simp add: find_sections_append)
  moreover have "find_sections [''## Foo''] = [(2, ''Foo'')]"
    by (simp add: reg_section_match_def partition_str_def)
  moreover have "find_sections [''###Foo''] = []"
    by (simp add: reg_section_match_def)
  ultimately show ?thesis by blast
qed

theorem find_sections_heading_iff_witness:
  "reg_section_match ''### A b ''
   \<and> find_sections ([''intro'', ''#''] @ [''### A b ''] @ [''###Foo'', ''# C''])
       = [(3, ''A b ''), (1, ''C'')]
   \<and> \<not> reg_section_match '' # x''
   \<and> find_sections ([''## Foo''] @ ['' # x''] @ []) = [(2, ''Foo'')]"
proof -
  have l: "''### A b '' = replicate 3 (CHR ''#'') @ SP # ''A b ''"
    by (simp add: numeral_3_eq_3)
  have n: "\<not> reg_section_match '' # x''"
    by (simp add: reg_section_match_def)
  have p: "(0::nat) < 3" by simp
  have m: "reg_section_match ''### A b ''"
    using find_sections_heading_iff [of "''### A b ''"] l p by blast
  have "find_sections ([''intro'', ''#''] @ [replicate 3 (CHR ''#'') @ SP # ''A b ''] @ [''###Foo'', ''# C''])
          = find_sections [''intro'', ''#''] @ [(3, ''A b '')] @ find_sections [''###Foo'', ''# C'']"
    using find_sections_heading_iff [of _ 3 "[''intro'', ''#'']" "''A b ''" "[''###Foo'', ''# C'']"] p
    by blast
  then have a: "find_sections ([''intro'', ''#''] @ [''### A b ''] @ [''###Foo'', ''# C''])
       = [(3, ''A b ''), (1, ''C'')]"
    by (simp add: numeral_3_eq_3 reg_section_match_def partition_str_def)
  have "find_sections ([''## Foo''] @ ['' # x''] @ []) = find_sections [''## Foo''] @ find_sections []"
    using find_sections_heading_iff [of "'' # x''" _ "[''## Foo'']" _ "[]"] n by blast
  then have b: "find_sections ([''## Foo''] @ ['' # x''] @ []) = [(2, ''Foo'')]"
    by (simp add: reg_section_match_def partition_str_def)
  from m a n b show ?thesis by blast
qed

section \<open>The table of contents\<close>

lemma replace_char_map:
  "replace s [a] [b] = map (\<lambda>c. if c = a then b else c) s"
  by (induction s) (auto simp: startswith_def)

lemma replace_char_filter:
  "replace s [a] [] = filter (\<lambda>c. c \<noteq> a) s"
  by (induction s) (auto simp: startswith_def)

lemma min_depth_Min: "min_depth s ss = Min (fst ` set (s # ss))"
  by (induction s ss rule: min_depth.induct) (auto simp: min_def)

text \<open>
  C8: for a list of headings that is not empty, \<open>make_toc\<close> gives one item for each
  heading, in the order of the list: \<open>depth - least depth\<close> times four spaces, then
  \<open>- [title](#anchor)\<close>, where the anchor is the title in lower case with every space
  replaced by a hyphen and every \<open>?\<close> removed, and nothing else changed.
\<close>

theorem make_toc_entries:
  assumes "sections \<noteq> []"
  shows "make_toc sections =
     map (\<lambda>(depth, title).
            concat (replicate (depth - Min (fst ` set sections)) ''    '')
            @ ''- ['' @ title @ ''](#''
            @ filter (\<lambda>c. c \<noteq> CHR ''?'') (map (\<lambda>c. if c = SP then CHR ''-'' else c) (lower title))
            @ '')'')
         sections"
proof -
  from assms obtain s ss where s: "sections = s # ss" by (cases sections) auto
  have "toc_ref (min_depth s ss) (depth, title) =
          concat (replicate (depth - Min (fst ` set sections)) ''    '')
            @ ''- ['' @ title @ ''](#''
            @ filter (\<lambda>c. c \<noteq> CHR ''?'') (map (\<lambda>c. if c = SP then CHR ''-'' else c) (lower title))
            @ '')''" for depth title
    unfolding toc_ref_def Let_def s min_depth_Min
    by (simp only: replace_char_map replace_char_filter prod.case)
  then have "map (toc_ref (min_depth s ss)) sections =
     map (\<lambda>(depth, title).
            concat (replicate (depth - Min (fst ` set sections)) ''    '')
            @ ''- ['' @ title @ ''](#''
            @ filter (\<lambda>c. c \<noteq> CHR ''?'') (map (\<lambda>c. if c = SP then CHR ''-'' else c) (lower title))
            @ '')'')
         sections"
    by (intro map_cong) auto
  then show ?thesis by (simp add: make_toc_def s)
qed

theorem make_toc_entries_witness:
  "make_toc [(2, ''How it Works?''), (3, ''Sub A''), (2, ''B'')]
     = [''- [How it Works?](#how-it-works)'', ''    - [Sub A](#sub-a)'', ''- [B](#b)'']"
proof -
  have ne: "[(2::nat, ''How it Works?''), (3, ''Sub A''), (2, ''B'')] \<noteq> []" by simp
  show ?thesis
    using make_toc_entries [OF ne]
    by (simp add: lower_def lower_char_def char_of_def bit_Suc_0_iff)
qed

section \<open>The loop over the body lines\<close>

lemma body_loop_append:
  "body_loop st (xs @ ys) =
     (case body_loop st xs of Inl e \<Rightarrow> Inl e | Inr st' \<Rightarrow> body_loop st' ys)"
  by (induction xs arbitrary: st) (auto split: sum.splits)

lemma body_loop_in_block:
  "is_code st \<Longrightarrow> code st = Some c \<Longrightarrow> \<forall>x \<in> set block. x \<noteq> [] \<Longrightarrow>
   body_loop st block = Inr (st\<lparr>code := Some (c @ block)\<rparr>)"
proof (induction block arbitrary: st c)
  case Nil
  then show ?case by simp
next
  case (Cons x block)
  have step: "loop_step st x = Inr (st\<lparr>code := Some (c @ [x])\<rparr>)"
    using Cons.prems by (simp add: loop_step_def)
  have "body_loop (st\<lparr>code := Some (c @ [x])\<rparr>) block
          = Inr (st\<lparr>code := Some (c @ [x])\<rparr>\<lparr>code := Some ((c @ [x]) @ block)\<rparr>)"
    using Cons.prems by (intro Cons.IH) auto
  then show ?case using step by simp
qed

lemma loop_step_block_end:
  "is_code st \<Longrightarrow> code st = Some c \<Longrightarrow> language st = Some lang \<Longrightarrow>
   loop_step st [] = Inr (st\<lparr>is_code := False, md := md st @ doc_code_block c lang @ [[]]\<rparr>)"
  by (simp add: loop_step_def)

lemma body_loop_block_extent:
  assumes "is_code st" and "code st = Some c" and "language st = Some lang"
    and "\<forall>x \<in> set block. x \<noteq> []"
  shows "body_loop st (block @ [] # rest)
           = body_loop (st\<lparr>code := Some (c @ block), is_code := False,
                           md := md st @ doc_code_block (c @ block) lang @ [[]]\<rparr>) rest
         \<and> (case body_loop st block of Inl e \<Rightarrow> Inl e | Inr st' \<Rightarrow> close_block st')
           = Inr (md st @ doc_code_block (c @ block) lang)"
proof -
  have b: "body_loop st block = Inr (st\<lparr>code := Some (c @ block)\<rparr>)"
    using assms by (intro body_loop_in_block) auto
  have e: "loop_step (st\<lparr>code := Some (c @ block)\<rparr>) []
      = Inr (st\<lparr>code := Some (c @ block)\<rparr>\<lparr>is_code := False, md := md (st\<lparr>code := Some (c @ block)\<rparr>) @ doc_code_block (c @ block) lang @ [[]]\<rparr>)"
    using assms by (intro loop_step_block_end) auto
  have "body_loop st (block @ [] # rest)
           = body_loop (st\<lparr>code := Some (c @ block), is_code := False,
                           md := md st @ doc_code_block (c @ block) lang @ [[]]\<rparr>) rest"
    by (simp add: body_loop_append b e)
  moreover have "(case body_loop st block of Inl e \<Rightarrow> Inl e | Inr st' \<Rightarrow> close_block st')
           = Inr (md st @ doc_code_block (c @ block) lang)"
    using assms by (simp add: b close_block_def)
  ultimately show ?thesis by blast
qed

section \<open>The converter raises no exception\<close>

lemma loop_step_total:
  assumes "bound_in_block st"
  shows "\<exists>st' b. loop_step st line = Inr st' \<and> bound_in_block st' \<and> md st' = md st @ b"
  using assms by (auto simp: loop_step_def bound_in_block_def Let_def)

lemma body_loop_total:
  assumes "bound_in_block st"
  shows "\<exists>st' b. body_loop st ls = Inr st' \<and> bound_in_block st' \<and> md st' = md st @ b"
  using assms
proof (induction ls arbitrary: st)
  case Nil
  then show ?case by simp
next
  case (Cons l ls)
  from loop_step_total [OF Cons.prems, of l] obtain st1 b1
    where 1: "loop_step st l = Inr st1" "bound_in_block st1" "md st1 = md st @ b1" by blast
  from Cons.IH [OF 1(2)] obtain st2 b2
    where 2: "body_loop st1 ls = Inr st2" "bound_in_block st2" "md st2 = md st1 @ b2" by blast
  show ?case using 1 2 by simp
qed

lemma close_block_total:
  assumes "bound_in_block st"
  shows "\<exists>b. close_block st = Inr (md st @ b)"
  using assms by (auto simp: close_block_def bound_in_block_def)

lemma run_total:
  assumes "bound_in_block st"
  shows "\<exists>b. (case body_loop st ls of Inl e \<Rightarrow> Inl e | Inr st' \<Rightarrow> close_block st') = Inr (md st @ b)"
proof -
  from body_loop_total [OF assms, of ls] obtain st' b
    where 1: "body_loop st ls = Inr st'" "bound_in_block st'" "md st' = md st @ b" by blast
  from close_block_total [OF 1(2)] obtain b' where "close_block st' = Inr (md st' @ b')" by blast
  then show ?thesis using 1 by simp
qed

lemma expandtabs_from_nonempty: "s \<noteq> [] \<Longrightarrow> expandtabs_from col s \<noteq> []"
  by (cases s) (auto simp: Let_def)

lemma splitlines_from_nonempty: "s \<noteq> [] \<Longrightarrow> splitlines_from cur s \<noteq> []"
  by (induction cur s rule: splitlines_from.induct) auto

lemma split_nonempty: "split sep s \<noteq> []"
  by (induction s) (auto split: list.splits)

lemma doctrim_total: "\<exists>text. doctrim docstring = Inr text"
proof (cases docstring)
  case None
  then show ?thesis by (simp add: doctrim_def)
next
  case (Some ds)
  show ?thesis
  proof (cases "ds = []")
    case True
    then show ?thesis using Some by (simp add: doctrim_def)
  next
    case False
    then have "splitlines (expandtabs ds) \<noteq> []"
      by (simp add: splitlines_def expandtabs_def splitlines_from_nonempty expandtabs_from_nonempty)
    then show ?thesis using Some False
      by (auto simp: doctrim_def Let_def split: list.splits)
  qed
qed

section \<open>The assembled document\<close>

lemma doc2md_lines_shape:
  assumes "doctrim docstr = Inr text" and "split NL text = first # others"
  shows "\<exists>body. doc2md_lines docstr title =
     Inr ([replicate (max ((if find_sections (first # others) = [] then 2
                            else Min (fst ` set (find_sections (first # others)))) - 1) 1) (CHR ''#'')
            @ '' '' @ title, [], first, []]
          @ make_toc (find_sections (first # others)) @ body)"
proof -
  let ?secs = "find_sections (first # others)"
  let ?level = "case ?secs of [] \<Rightarrow> 2 | s # ss \<Rightarrow> min_depth s ss"
  let ?md0 = "[replicate (max (?level - 1) 1) (CHR ''#'') @ '' '' @ title, [], first, []]
              @ make_toc ?secs"
  let ?st0 = "\<lparr>md = ?md0, is_code = False, code = None, language = None\<rparr>"
  have lv: "?level = (if ?secs = [] then 2 else Min (fst ` set ?secs))"
    by (cases ?secs) (simp_all add: min_depth_Min)
  have "bound_in_block ?st0" by (simp add: bound_in_block_def)
  from run_total [OF this, of others] obtain body where
    "(case body_loop ?st0 others of Inl e \<Rightarrow> Inl e | Inr st' \<Rightarrow> close_block st') = Inr (?md0 @ body)"
    by auto
  then have "doc2md_lines docstr title = Inr (?md0 @ body)"
    using assms by (simp add: doc2md_lines_def Let_def)
  then show ?thesis unfolding lv append_assoc by blast
qed


text \<open>
  C6: the headings are scanned in all lines of the normalized text, the first line
  included; the first line of the document is \<open>#\<close> repeated \<open>max (level - 1) 1\<close> times,
  a space and the title, where \<open>level\<close> is the least depth of the scanned headings, or 2
  when there is none; an empty line, the first line of the text, an empty line and the
  table of contents follow, and without headings the table of contents is empty.
\<close>

theorem top_heading_and_toc:
  "\<exists>text first others body.
     doctrim docstr = Inr text \<and> split NL text = first # others
     \<and> doc2md_lines docstr title =
         Inr ([replicate (max ((if find_sections (first # others) = [] then 2
                                else Min (fst ` set (find_sections (first # others)))) - 1) 1) (CHR ''#'')
                @ '' '' @ title, [], first, []]
              @ make_toc (find_sections (first # others)) @ body)
     \<and> doc2md docstr title =
         Inr (join [NL] ([replicate (max ((if find_sections (first # others) = [] then 2
                                else Min (fst ` set (find_sections (first # others)))) - 1) 1) (CHR ''#'')
                @ '' '' @ title, [], first, []]
              @ make_toc (find_sections (first # others)) @ body))
     \<and> make_toc [] = []"
proof -
  obtain tx where t: "doctrim docstr = Inr tx" using doctrim_total by blast
  obtain first others where s: "split NL tx = first # others"
    using split_nonempty [of NL tx] by (cases "split NL tx") auto
  from doc2md_lines_shape [OF t s, of title] obtain body where
    b: "doc2md_lines docstr title =
     Inr ([replicate (max ((if find_sections (first # others) = [] then 2
                            else Min (fst ` set (find_sections (first # others)))) - 1) 1) (CHR ''#'')
            @ '' '' @ title, [], first, []]
          @ make_toc (find_sections (first # others)) @ body)" by blast
  have "make_toc [] = []" by (simp add: make_toc_def)
  with t s b show ?thesis unfolding doc2md_def by (simp only: sum.case) blast
qed

theorem top_heading_and_toc_witness:
  "doc2md_lines (Some ''# Foo\<newline>bar'') ''demo''
     = Inr [''# demo'', [], ''# Foo'', [], ''- [Foo](#foo)'', ''bar'']
   \<and> doc2md_lines (Some ''### Foo\<newline>bar'') ''demo''
     = Inr [''## demo'', [], ''### Foo'', [], ''- [Foo](#foo)'', ''bar'']
   \<and> doc2md_lines None ''demo'' = Inr [''# demo'', [], [], []]"
  using top_heading_and_toc [of "Some ''# Foo\<newline>bar''" "''demo''"]
  by (simp add: run_defs)

lemma run_in_block:
  assumes "is_code st" and "code st = Some c" and "language st = Some lang"
  shows "\<exists>b. (case body_loop st ls of Inl e \<Rightarrow> Inl e | Inr st' \<Rightarrow> close_block st')
              = Inr (md st @ doc_code_block (c @ takeWhile (\<lambda>l. l \<noteq> []) ls) lang @ b)"
proof -
  let ?blk = "takeWhile (\<lambda>l. l \<noteq> []) ls"
  let ?rest = "dropWhile (\<lambda>l. l \<noteq> []) ls"
  have ne: "\<forall>x \<in> set ?blk. x \<noteq> []" by (auto dest: set_takeWhileD)
  have b: "body_loop st ?blk = Inr (st\<lparr>code := Some (c @ ?blk)\<rparr>)"
    using assms ne by (intro body_loop_in_block) auto
  show ?thesis
  proof (cases ?rest)
    case Nil
    then have "ls = ?blk" by (metis append_Nil2 takeWhile_dropWhile_id)
    then have "body_loop st ls = Inr (st\<lparr>code := Some (c @ ?blk)\<rparr>)" using b by simp
    then show ?thesis using assms by (simp add: close_block_def)
  next
    case (Cons x rest)
    then have x: "x = []" using hd_dropWhile [of "\<lambda>l. l \<noteq> []" ls] by (metis list.distinct(1) list.sel(1))
    have ls: "ls = ?blk @ [] # rest" using Cons x by (metis takeWhile_dropWhile_id)
    let ?st1 = "st\<lparr>code := Some (c @ ?blk), is_code := False,
                   md := md st @ doc_code_block (c @ ?blk) lang @ [[]]\<rparr>"
    have e: "loop_step (st\<lparr>code := Some (c @ ?blk)\<rparr>) [] = Inr ?st1"
      using assms by (simp add: loop_step_def)
    have "bound_in_block ?st1" by (simp add: bound_in_block_def)
    from run_total [OF this, of rest] obtain b' where
      "(case body_loop ?st1 rest of Inl e \<Rightarrow> Inl e | Inr st' \<Rightarrow> close_block st') = Inr (md ?st1 @ b')"
      by blast
    moreover have "body_loop st ls = body_loop ?st1 rest"
      by (subst ls) (simp add: body_loop_append b e)
    ultimately show ?thesis by simp
  qed
qed

section \<open>Normalizing the indentation\<close>

subsection \<open>Stripping white space\<close>

lemma rstrip_idem: "rstrip (rstrip s) = rstrip s"
  by (simp add: rstrip_def)

lemma rstrip_last: "rstrip s \<noteq> [] \<Longrightarrow> \<not> isspace (last (rstrip s))"
  unfolding rstrip_def using hd_dropWhile [of isspace "rev s"] by (simp add: last_rev)

lemma rstrip_fixed: "s = [] \<or> \<not> isspace (last s) \<Longrightarrow> rstrip s = s"
  unfolding rstrip_def by (cases "rev s") (auto simp: last_rev hd_rev rev_swap)

lemma lstrip_hd: "lstrip s \<noteq> [] \<Longrightarrow> \<not> isspace (hd (lstrip s))"
  unfolding lstrip_def by (rule hd_dropWhile)

lemma lstrip_fixed: "s = [] \<or> \<not> isspace (hd s) \<Longrightarrow> lstrip s = s"
  unfolding lstrip_def by (cases s) auto

lemma lstrip_last: "lstrip s \<noteq> [] \<Longrightarrow> last (lstrip s) = last s"
  unfolding lstrip_def by (metis last_appendR takeWhile_dropWhile_id)

lemma rstrip_lstrip_fixed:
  assumes "rstrip s = s" shows "rstrip (lstrip s) = lstrip s"
proof (cases "lstrip s = []")
  case True then show ?thesis by (simp add: rstrip_def)
next
  case False
  then have "s \<noteq> []" by (auto simp: lstrip_def)
  then have "\<not> isspace (last s)" using rstrip_last [of s] assms by simp
  then show ?thesis using False lstrip_last [OF False] by (intro rstrip_fixed) simp
qed

lemma strip_rstripped: "rstrip (strip s) = strip s"
  unfolding strip_def by (rule rstrip_lstrip_fixed) (rule rstrip_idem)

lemma strip_idem: "strip (strip s) = strip s"
proof -
  have "strip (strip s) = lstrip (strip s)" by (simp add: strip_def [of "strip s"] strip_rstripped)
  also have "\<dots> = strip s" unfolding strip_def lstrip_def by simp
  finally show ?thesis .
qed

lemma rstrip_hd: "rstrip s \<noteq> [] \<Longrightarrow> hd (rstrip s) = hd s"
  unfolding rstrip_def
  by (metis hd_append2 rev_append rev_is_Nil_conv rev_rev_ident takeWhile_dropWhile_id)

lemma lstrip_rstrip_fixed:
  assumes "lstrip s \<noteq> []" 
  shows "rstrip (lstrip s) \<noteq> [] \<and> lstrip (rstrip (lstrip s)) = rstrip (lstrip s)"
proof -
  let ?l = "lstrip s"
  have h: "\<not> isspace (hd ?l)" using assms by (rule lstrip_hd)
  obtain c cs where l: "?l = c # cs" using assms by (cases ?l) auto
  with h have c: "\<not> isspace c" by simp
  have ne: "rstrip ?l \<noteq> []"
    unfolding rstrip_def l using c by (auto simp: dropWhile_append)
  then have "hd (rstrip ?l) = hd ?l" by (rule rstrip_hd)
  then show ?thesis using ne h by (simp add: lstrip_fixed)
qed

lemma set_lstrip: "set (lstrip s) \<subseteq> set s"
  unfolding lstrip_def by (auto dest: set_dropWhileD)

lemma set_rstrip: "set (rstrip s) \<subseteq> set s"
  unfolding rstrip_def by (auto dest: set_dropWhileD)

lemma set_strip: "set (strip s) \<subseteq> set s"
  unfolding strip_def using set_lstrip set_rstrip by blast

lemma lstrip_drop: "drop (length s - length (lstrip s)) s = lstrip s"
proof -
  have "s = takeWhile isspace s @ dropWhile isspace s" by simp
  then have "length s - length (lstrip s) = length (takeWhile isspace s)"
    unfolding lstrip_def by (metis add_diff_cancel_right' length_append)
  then show ?thesis unfolding lstrip_def by (simp add: dropWhile_eq_drop)
qed

subsection \<open>Splitting a joined text into its lines\<close>

lemma islinebreak_NL: "islinebreak NL"
  by (simp add: islinebreak_def)

lemma splitlines_from_line:
  "breakfree l \<Longrightarrow> cur @ l \<noteq> [] \<Longrightarrow> splitlines_from cur l = [cur @ l]"
proof (induction l arbitrary: cur)
  case Nil
  then show ?case by simp
next
  case (Cons a l)
  then have a: "\<not> islinebreak a" and l: "breakfree l" by (simp_all add: breakfree_def)
  show ?case
  proof (cases l)
    case Nil
    then show ?thesis using a by simp
  next
    case (Cons b l')
    have "splitlines_from cur (a # l) = splitlines_from (cur @ [a]) l"
      using a Cons by simp
    also have "\<dots> = [(cur @ [a]) @ l]" using l by (intro Cons.IH) simp_all
    finally show ?thesis by simp
  qed
qed

lemma splitlines_from_line_NL:
  "breakfree l \<Longrightarrow> splitlines_from cur (l @ NL # s) = (cur @ l) # splitlines_from [] s"
proof (induction l arbitrary: cur)
  case Nil
  show ?case by (cases s) (simp_all add: islinebreak_NL)
next
  case (Cons a l)
  then have a: "\<not> islinebreak a" and l: "breakfree l" by (simp_all add: breakfree_def)
  obtain b r where r: "l @ NL # s = b # r" by (cases "l @ NL # s") auto
  have "splitlines_from cur ((a # l) @ NL # s) = splitlines_from (cur @ [a]) (l @ NL # s)"
    using a by (simp add: r)
  also have "\<dots> = ((cur @ [a]) @ l) # splitlines_from [] s" using l by (rule Cons.IH)
  finally show ?case by simp
qed

lemma splitlines_join:
  assumes "\<forall>l \<in> set ls. breakfree l" and "ls \<noteq> []" and "last ls \<noteq> []"
  shows "splitlines (join [NL] ls) = ls"
  using assms
proof (induction ls)
  case Nil
  then show ?case by simp
next
  case (Cons x xs)
  then have x: "breakfree x" by simp
  show ?case
  proof (cases "xs = []")
    case True
    then have "x \<noteq> []" using Cons.prems by simp
    then show ?thesis using True x splitlines_from_line [of x "[]"] by (simp add: splitlines_def)
  next
    case False
    then obtain y ys where xs: "xs = y # ys" by (cases xs) auto
    have "\<forall>l \<in> set xs. breakfree l" using Cons.prems(1) by simp
    moreover have "last xs \<noteq> []" using Cons.prems(3) False by simp
    ultimately have ih: "splitlines (join [NL] xs) = xs" using False by (intro Cons.IH)
    have "join [NL] (x # xs) = x @ NL # join [NL] xs" by (simp add: xs)
    then have "splitlines (join [NL] (x # xs)) = x # splitlines (join [NL] xs)"
      using splitlines_from_line_NL [OF x, of "[]" "join [NL] xs"]
      by (simp add: splitlines_def)
    then show ?thesis using ih by simp
  qed
qed

subsection \<open>Tabs\<close>

lemma expandtabs_from_id: "TAB \<notin> set s \<Longrightarrow> expandtabs_from col s = s"
  by (induction s arbitrary: col) auto

lemma expandtabs_from_no_tab: "TAB \<notin> set (expandtabs_from col s)"
  by (induction s arbitrary: col) (auto simp: Let_def)

lemma set_join: "set (join sep ls) \<subseteq> set sep \<union> \<Union> (set ` set ls)"
  by (induction sep ls rule: join.induct) auto

lemma splitlines_from_chars:
  "l \<in> set (splitlines_from cur s) \<Longrightarrow> set l \<subseteq> set cur \<union> set s"
  by (induction cur s arbitrary: l rule: splitlines_from.induct) (auto split: if_splits)

lemma breakfree_Nil: "breakfree []"
  by (simp add: breakfree_def)

lemma breakfree_snoc: "breakfree (cur @ [c]) \<longleftrightarrow> breakfree cur \<and> \<not> islinebreak c"
  by (auto simp: breakfree_def)

lemma splitlines_from_breakfree:
  "breakfree cur \<Longrightarrow> l \<in> set (splitlines_from cur s) \<Longrightarrow> breakfree l"
proof (induction cur s arbitrary: l rule: splitlines_from.induct)
  case (1 cur)
  then show ?case by (simp split: if_splits)
next
  case (2 cur c)
  then show ?case by (simp add: breakfree_snoc split: if_splits)
next
  case (3 cur c d cs)
  show ?case
  proof (cases "islinebreak c")
    case True
    show ?thesis
    proof (cases "c = CR \<and> d = NL")
      case cr: True
      with True "3.prems"(2) have "l = cur \<or> l \<in> set (splitlines_from [] cs)" by simp
      then show ?thesis using "3.IH"(1) [OF True cr breakfree_Nil] "3.prems"(1) by blast
    next
      case cr: False
      with True "3.prems"(2) have "l = cur \<or> l \<in> set (splitlines_from [] (d # cs))" by auto
      then show ?thesis using "3.IH"(2) [OF True cr breakfree_Nil] "3.prems"(1) by blast
    qed
  next
    case False
    with "3.prems"(2) have "l \<in> set (splitlines_from (cur @ [c]) (d # cs))" by simp
    moreover have "breakfree (cur @ [c])" using False "3.prems"(1) by (simp add: breakfree_snoc)
    ultimately show ?thesis
      using False "3.IH"(3) by blast
  qed
qed

lemma splitlines_breakfree: "l \<in> set (splitlines s) \<Longrightarrow> breakfree l"
  unfolding splitlines_def by (rule splitlines_from_breakfree) (simp_all add: breakfree_def)

lemma splitlines_expandtabs_no_tab: "l \<in> set (splitlines (expandtabs s)) \<Longrightarrow> TAB \<notin> set l"
  unfolding splitlines_def expandtabs_def
  using splitlines_from_chars expandtabs_from_no_tab by fastforce

subsection \<open>Popping blank lines\<close>

lemma pop_leading_blank_fixed: "ls = [] \<or> hd ls \<noteq> [] \<Longrightarrow> pop_leading_blank ls = ls"
  by (cases ls) auto

lemma pop_leading_blank_hd: "pop_leading_blank ls \<noteq> [] \<Longrightarrow> hd (pop_leading_blank ls) \<noteq> []"
  by (induction ls) (auto split: if_splits)

lemma set_pop_leading_blank: "set (pop_leading_blank ls) \<subseteq> set ls"
  by (induction ls) auto

lemma pop_leading_blank_keeps: "x \<in> set ls \<Longrightarrow> x \<noteq> [] \<Longrightarrow> x \<in> set (pop_leading_blank ls)"
  by (induction ls) auto

lemma pop_leading_blank_append:
  "x \<noteq> [] \<Longrightarrow> pop_leading_blank (ls @ [x]) = pop_leading_blank ls @ [x]"
  by (induction ls) auto

lemma pop_trailing_blank_Cons:
  "x \<noteq> [] \<Longrightarrow> pop_trailing_blank (x # ls) = x # pop_trailing_blank ls"
  by (simp add: pop_trailing_blank_def pop_leading_blank_append)

lemma pop_trailing_blank_last:
  "pop_trailing_blank ls \<noteq> [] \<Longrightarrow> last (pop_trailing_blank ls) \<noteq> []"
  unfolding pop_trailing_blank_def using pop_leading_blank_hd [of "rev ls"]
  by (simp add: last_rev)

lemma pop_trailing_blank_fixed:
  assumes "ls = [] \<or> last ls \<noteq> []"
  shows "pop_trailing_blank ls = ls"
proof -
  have "rev ls = [] \<or> hd (rev ls) \<noteq> []" using assms by (auto simp: hd_rev)
  then have "pop_leading_blank (rev ls) = rev ls" by (rule pop_leading_blank_fixed)
  then show ?thesis by (simp add: pop_trailing_blank_def)
qed

lemma set_pop_trailing_blank: "set (pop_trailing_blank ls) \<subseteq> set ls"
  unfolding pop_trailing_blank_def using set_pop_leading_blank [of "rev ls"] by simp

lemma pop_trailing_blank_keeps: "x \<in> set ls \<Longrightarrow> x \<noteq> [] \<Longrightarrow> x \<in> set (pop_trailing_blank ls)"
  unfolding pop_trailing_blank_def using pop_leading_blank_keeps [of x "rev ls"] by simp

subsection \<open>The least indentation\<close>

lemma min_indent_le: "min_indent k ls \<le> k"
proof (induction ls arbitrary: k)
  case Nil
  then show ?case by simp
next
  case (Cons a ls)
  have "min_indent (min k (length a - length (lstrip a))) ls \<le> min k (length a - length (lstrip a))"
    by (rule Cons)
  then have "min_indent (min k (length a - length (lstrip a))) ls \<le> k" by simp
  then show ?case using Cons [of k] by (simp add: Let_def)
qed

lemma min_indent_attained:
  "min_indent k ls = k \<or>
   (\<exists>l \<in> set ls. lstrip l \<noteq> [] \<and> min_indent k ls = length l - length (lstrip l))"
proof (induction ls arbitrary: k)
  case Nil
  then show ?case by simp
next
  case (Cons a ls)
  show ?case
  proof (cases "lstrip a = []")
    case True
    then show ?thesis using Cons [of k] by auto
  next
    case False
    let ?k = "min k (length a - length (lstrip a))"
    have eq: "min_indent k (a # ls) = min_indent ?k ls" using False by (simp add: Let_def)
    from Cons [of ?k] show ?thesis
    proof
      assume "min_indent ?k ls = ?k"
      then show ?thesis using eq False by (auto simp: min_def)
    next
      assume "\<exists>l\<in>set ls. lstrip l \<noteq> [] \<and> min_indent ?k ls = length l - length (lstrip l)"
      then show ?thesis using eq by auto
    qed
  qed
qed

lemma min_indent_zero:
  assumes "l \<in> set ls" and "l \<noteq> []" and "lstrip l = l"
  shows "min_indent k ls = 0"
  using assms
proof (induction ls arbitrary: k)
  case Nil
  then show ?case by simp
next
  case (Cons a ls)
  show ?case
  proof (cases "a = l")
    case True
    have "min_indent k (a # ls) = min_indent 0 ls" using True Cons.prems by (simp add: Let_def)
    then show ?thesis using min_indent_le [of 0 ls] by simp
  next
    case False
    then have "l \<in> set ls" using Cons.prems by simp
    then show ?thesis using Cons by (simp add: Let_def)
  qed
qed

subsection \<open>\<^verbatim>\<open>doctrim\<close> applied twice\<close>

lemma breakfree_subset: "set a \<subseteq> set b \<Longrightarrow> breakfree b \<Longrightarrow> breakfree a"
  by (auto simp: breakfree_def)

lemma join_Cons_nonempty: "x \<noteq> [] \<Longrightarrow> join sep (x # ls) \<noteq> []"
  by (cases ls) auto

lemma doctrim_fixed:
  assumes x: "x \<noteq> []" "strip x = x"
    and clean: "\<forall>l \<in> set (x # R). breakfree l \<and> TAB \<notin> set l"
    and rs: "\<forall>l \<in> set R. rstrip l = l"
    and lastR: "R = [] \<or> last R \<noteq> []"
    and col0: "R = [] \<or> (\<exists>l \<in> set R. l \<noteq> [] \<and> lstrip l = l)"
  shows "doctrim (Some (join [NL] (x # R))) = Inr (join [NL] (x # R))"
proof -
  let ?t = "join [NL] (x # R)"
  have ne: "?t \<noteq> []" using x(1) by (rule join_Cons_nonempty)
  have "TAB \<notin> set ?t" using set_join [of "[NL]" "x # R"] clean by auto
  then have et: "expandtabs ?t = ?t" by (simp add: expandtabs_def expandtabs_from_id)
  have "last (x # R) \<noteq> []" using x(1) lastR by auto
  then have sl: "splitlines ?t = x # R" using clean by (intro splitlines_join) auto
  have pops: "pop_leading_blank (pop_trailing_blank (x # R)) = x # R"
  proof -
    have "pop_trailing_blank R = R" using lastR by (rule pop_trailing_blank_fixed)
    then have "pop_trailing_blank (x # R) = x # R" using x(1) by (simp add: pop_trailing_blank_Cons)
    then show ?thesis using x(1) by simp
  qed
  have tr: "strip x # (if min_indent sys_maxsize R < sys_maxsize
                       then map (\<lambda>line. rstrip (drop (min_indent sys_maxsize R) line)) R else [])
            = x # R"
  proof (cases "R = []")
    case True
    then show ?thesis using x(2) by simp
  next
    case False
    with col0 obtain l where "l \<in> set R" "l \<noteq> []" "lstrip l = l" by blast
    then have z: "min_indent sys_maxsize R = 0" by (rule min_indent_zero)
    have "map (\<lambda>line. rstrip (drop 0 line)) R = R" using rs by (simp add: map_idI)
    then show ?thesis using x(2) z by (simp add: sys_maxsize_def)
  qed
  show ?thesis
    unfolding doctrim_def option.case et sl Let_def list.case tr pops using ne by simp
qed

lemma doctrim_nonblank_first:
  assumes L: "splitlines (expandtabs ds) = first # others" and nb: "strip first \<noteq> []"
  shows "\<exists>R. doctrim (Some ds) = Inr (join [NL] (strip first # R))
             \<and> doctrim (Some (join [NL] (strip first # R))) = Inr (join [NL] (strip first # R))"
proof -
  define indent where "indent = min_indent sys_maxsize others"
  define rest where "rest = (if indent < sys_maxsize
                             then map (\<lambda>line. rstrip (drop indent line)) others else [])"
  define R where "R = pop_trailing_blank rest"
  have ds: "ds \<noteq> []" using L by (auto simp: splitlines_def expandtabs_def)
  have "pop_trailing_blank (strip first # rest) = strip first # R"
    using nb by (simp add: pop_trailing_blank_Cons R_def)
  then have pops: "pop_leading_blank (pop_trailing_blank (strip first # rest)) = strip first # R"
    using nb by simp
  have first: "doctrim (Some ds) = Inr (join [NL] (strip first # R))"
    unfolding doctrim_def option.case L Let_def list.case
      indent_def [symmetric] rest_def [symmetric] pops
    using ds by simp
  have src: "breakfree l \<and> TAB \<notin> set l" if "l \<in> set (first # others)" for l
    using that splitlines_breakfree [of l "expandtabs ds"]
      splitlines_expandtabs_no_tab [of l ds] unfolding L by blast
  have restD: "\<exists>o' \<in> set others. l = rstrip (drop indent o')" if "l \<in> set rest" for l
    using that unfolding rest_def by (auto split: if_splits)
  have Rsub: "set R \<subseteq> set rest" unfolding R_def by (rule set_pop_trailing_blank)
  have clean: "\<forall>l \<in> set (strip first # R). breakfree l \<and> TAB \<notin> set l"
  proof
    fix l assume "l \<in> set (strip first # R)"
    then consider "l = strip first" | "l \<in> set rest" using Rsub by auto
    then show "breakfree l \<and> TAB \<notin> set l"
    proof cases
      case 1
      have "set l \<subseteq> set first" unfolding 1 by (rule set_strip)
      then show ?thesis using src [of first] breakfree_subset by auto
    next
      case 2
      with restD obtain o' where o: "o' \<in> set others" "l = rstrip (drop indent o')" by blast
      have "set l \<subseteq> set o'" unfolding o(2) using set_rstrip set_drop_subset by fast
      then show ?thesis using src [of o'] o(1) breakfree_subset by auto
    qed
  qed
  have rs: "\<forall>l \<in> set R. rstrip l = l"
    using Rsub restD rstrip_idem by fastforce
  have lastR: "R = [] \<or> last R \<noteq> []"
    unfolding R_def using pop_trailing_blank_last by blast
  have col0: "R = [] \<or> (\<exists>l \<in> set R. l \<noteq> [] \<and> lstrip l = l)"
  proof (cases "R = []")
    case True
    then show ?thesis by simp
  next
    case False
    then have "rest \<noteq> []" unfolding R_def by (auto simp: pop_trailing_blank_def)
    then have lt: "indent < sys_maxsize" unfolding rest_def by (auto split: if_splits)
    then have "indent \<noteq> sys_maxsize" by simp
    with min_indent_attained [of sys_maxsize others]
    obtain l where l: "l \<in> set others" "lstrip l \<noteq> []" "indent = length l - length (lstrip l)"
      unfolding indent_def by blast
    let ?f = "rstrip (drop indent l)"
    have dl: "drop indent l = lstrip l" unfolding l(3) by (rule lstrip_drop)
    have f: "?f \<noteq> [] \<and> lstrip ?f = ?f"
      unfolding dl using l(2) by (rule lstrip_rstrip_fixed)
    have "?f \<in> set rest" unfolding rest_def using lt l(1) by simp
    then have "?f \<in> set R" unfolding R_def using f by (intro pop_trailing_blank_keeps) auto
    then show ?thesis using f by blast
  qed
  have "doctrim (Some (join [NL] (strip first # R))) = Inr (join [NL] (strip first # R))"
    using nb strip_idem [of first] clean rs lastR col0 by (rule doctrim_fixed)
  with first show ?thesis by blast
qed

text \<open>
  C5 as stated: \<open>doctrim (doctrim s) = doctrim s\<close> for every text. The text below starts
  with an empty line, which is popped; the line \<open>b\<close> becomes the first line of the result,
  so the second application no longer counts it for the indentation and removes the two
  spaces before \<open>c\<close>.
\<close>

theorem doctrim_idempotent_counterexample:
  "doctrim (Some ''\<newline>b\<newline>  c'') = Inr ''b\<newline>  c''
   \<and> doctrim (Some ''b\<newline>  c'') = Inr ''b\<newline>c''
   \<and> ''b\<newline>c'' \<noteq> ''b\<newline>  c''"
  by (simp add: run_defs)

lemma doctrim_idempotent_nonblank:
  assumes "docstring = None \<or> docstring = Some []
     \<or> (\<exists>ds first others. docstring = Some ds
           \<and> splitlines (expandtabs ds) = first # others \<and> strip first \<noteq> [])"
  shows "\<exists>t. doctrim docstring = Inr t \<and> doctrim (Some t) = Inr t"
  using assms
proof (elim disjE exE conjE)
  assume "docstring = None"
  then show ?thesis by (simp add: doctrim_def)
next
  assume "docstring = Some []"
  then show ?thesis by (simp add: doctrim_def)
next
  fix ds first others
  assume "docstring = Some ds" "splitlines (expandtabs ds) = first # others" "strip first \<noteq> []"
  then show ?thesis using doctrim_nonblank_first [of ds first others] by blast
qed

subsection \<open>The lines of the normalized text\<close>

lemma split_line: "sep \<notin> set l \<Longrightarrow> split sep l = [l]"
  by (induction l) auto

lemma split_line_sep: "sep \<notin> set l \<Longrightarrow> split sep (l @ sep # s) = l # split sep s"
  by (induction l) (auto split: list.splits)

lemma split_join:
  assumes "\<forall>l \<in> set ls. NL \<notin> set l" and "ls \<noteq> []"
  shows "split NL (join [NL] ls) = ls"
  using assms
proof (induction ls)
  case Nil
  then show ?case by simp
next
  case (Cons x xs)
  then have x: "NL \<notin> set x" by simp
  show ?case
  proof (cases "xs = []")
    case True
    then show ?thesis using x by (simp add: split_line)
  next
    case False
    then obtain y ys where xs: "xs = y # ys" by (cases xs) auto
    have ih: "split NL (join [NL] xs) = xs" using Cons.prems(1) False by (intro Cons.IH) auto
    have "join [NL] (x # xs) = x @ NL # join [NL] xs" by (simp add: xs)
    then show ?thesis using split_line_sep [OF x, of "join [NL] xs"] ih by simp
  qed
qed

lemma breakfree_no_NL: "breakfree l \<Longrightarrow> NL \<notin> set l"
  by (auto simp: breakfree_def islinebreak_def)

lemma lstrip_Nil_rstrip: "lstrip l = [] \<Longrightarrow> rstrip l = []"
  by (simp add: lstrip_def rstrip_def dropWhile_eq_Nil_conv)

lemma rstripped_nonblank: "rstrip l = l \<Longrightarrow> l \<noteq> [] \<Longrightarrow> lstrip l \<noteq> []"
  using lstrip_Nil_rstrip by fastforce

lemma pop_leading_blank_suffix: "\<exists>p. ls = p @ pop_leading_blank ls"
proof (induction ls)
  case Nil
  then show ?case by simp
next
  case (Cons a ls)
  then obtain p where "ls = p @ pop_leading_blank ls" by blast
  then have 1: "a # ls = (a # p) @ pop_leading_blank ls" by simp
  show ?case
  proof (cases "a = []")
    case True
    then have "pop_leading_blank (a # ls) = pop_leading_blank ls" by simp
    then show ?thesis using 1 by metis
  next
    case False
    then have "a # ls = [] @ pop_leading_blank (a # ls)" by simp
    then show ?thesis by blast
  qed
qed

lemma pop_leading_blank_last:
  assumes "ls = [] \<or> last ls \<noteq> []"
  shows "pop_leading_blank ls = [] \<or> last (pop_leading_blank ls) \<noteq> []"
proof (cases "pop_leading_blank ls = []")
  case True
  then show ?thesis by simp
next
  case False
  obtain p where p: "ls = p @ pop_leading_blank ls" using pop_leading_blank_suffix by blast
  then have "last ls = last (pop_leading_blank ls)" using False by (metis last_appendR)
  moreover have "ls \<noteq> []" using False by auto
  ultimately show ?thesis using assms by simp
qed

lemma pop_trailing_blank_prefix: "\<exists>p. ls = pop_trailing_blank ls @ p"
proof -
  obtain p where "rev ls = p @ pop_leading_blank (rev ls)"
    using pop_leading_blank_suffix by blast
  then have "rev (rev ls) = rev (p @ pop_leading_blank (rev ls))" by simp
  then have "ls = pop_trailing_blank ls @ rev p" by (simp add: pop_trailing_blank_def)
  then show ?thesis by blast
qed

lemma pop_trailing_blank_same_length:
  assumes "length (pop_trailing_blank ls) = length ls"
  shows "pop_trailing_blank ls = ls"
proof -
  obtain p where p: "ls = pop_trailing_blank ls @ p" using pop_trailing_blank_prefix by blast
  then have "length ls = length (pop_trailing_blank ls) + length p" by (metis length_append)
  then have "p = []" using assms by simp
  then show ?thesis using p by simp
qed

lemma doctrim_lines:
  "\<exists>T. doctrim docstring = Inr (join [NL] T)
       \<and> (T = [] \<or> (hd T \<noteq> [] \<and> last T \<noteq> []))
       \<and> (\<forall>l \<in> set T. breakfree l \<and> TAB \<notin> set l \<and> rstrip l = l)"
proof (cases "docstring = None \<or> docstring = Some []")
  case True
  then have "doctrim docstring = Inr (join [NL] [])" by (auto simp: doctrim_def)
  then show ?thesis by (intro exI [of _ "[]"]) simp
next
  case False
  then obtain ds where ds: "docstring = Some ds" "ds \<noteq> []" by (cases docstring) auto
  then have "splitlines (expandtabs ds) \<noteq> []"
    by (simp add: splitlines_def expandtabs_def splitlines_from_nonempty expandtabs_from_nonempty)
  then obtain first others where L: "splitlines (expandtabs ds) = first # others"
    by (cases "splitlines (expandtabs ds)") auto
  define indent where "indent = min_indent sys_maxsize others"
  define rest where "rest = (if indent < sys_maxsize
                             then map (\<lambda>line. rstrip (drop indent line)) others else [])"
  define T where "T = pop_leading_blank (pop_trailing_blank (strip first # rest))"
  have eq: "doctrim docstring = Inr (join [NL] T)"
    unfolding ds(1) doctrim_def option.case L Let_def list.case
      indent_def [symmetric] rest_def [symmetric] T_def
    using ds(2) by simp
  have src: "breakfree l \<and> TAB \<notin> set l" if "l \<in> set (first # others)" for l
    using that splitlines_breakfree [of l "expandtabs ds"]
      splitlines_expandtabs_no_tab [of l ds] unfolding L by blast
  have restD: "\<exists>o' \<in> set others. l = rstrip (drop indent o')" if "l \<in> set rest" for l
    using that unfolding rest_def by (auto split: if_splits)
  have Tsub: "set T \<subseteq> set (strip first # rest)"
    unfolding T_def using set_pop_leading_blank set_pop_trailing_blank by fast
  have clean: "\<forall>l \<in> set T. breakfree l \<and> TAB \<notin> set l \<and> rstrip l = l"
  proof
    fix l assume "l \<in> set T"
    then consider "l = strip first" | "l \<in> set rest" using Tsub by auto
    then show "breakfree l \<and> TAB \<notin> set l \<and> rstrip l = l"
    proof cases
      case 1
      have "set l \<subseteq> set first" unfolding 1 by (rule set_strip)
      then show ?thesis using src [of first] breakfree_subset strip_rstripped 1 by auto
    next
      case 2
      with restD obtain o' where o: "o' \<in> set others" "l = rstrip (drop indent o')" by blast
      have "set l \<subseteq> set o'" unfolding o(2) using set_rstrip set_drop_subset by fast
      then show ?thesis using src [of o'] o breakfree_subset rstrip_idem by auto
    qed
  qed
  have "pop_trailing_blank (strip first # rest) = []
        \<or> last (pop_trailing_blank (strip first # rest)) \<noteq> []"
    using pop_trailing_blank_last by blast
  then have "T = [] \<or> last T \<noteq> []" unfolding T_def by (rule pop_leading_blank_last)
  moreover have "T = [] \<or> hd T \<noteq> []" unfolding T_def using pop_leading_blank_hd by blast
  ultimately show ?thesis using eq clean by blast
qed

lemma doctrim_normalized_lines:
  assumes "doctrim docstring = Inr text" and "l \<in> set (split NL text)"
  shows "rstrip l = l"
proof -
  from doctrim_lines [of docstring] obtain T where
    T: "doctrim docstring = Inr (join [NL] T)"
       "\<forall>l \<in> set T. breakfree l \<and> TAB \<notin> set l \<and> rstrip l = l" by blast
  then have tx: "text = join [NL] T" using assms(1) by simp
  show ?thesis
  proof (cases "T = []")
    case True
    then show ?thesis using assms(2) tx by (simp add: rstrip_def)
  next
    case False
    have "split NL text = T" unfolding tx using T(2) False breakfree_no_NL
      by (intro split_join) auto
    then show ?thesis using assms(2) T(2) by simp
  qed
qed

subsection \<open>When \<^verbatim>\<open>doctrim\<close> changes nothing\<close>

lemma doctrim_clean_lines:
  assumes x: "x \<noteq> []" "rstrip x = x"
    and clean: "\<forall>l \<in> set (x # R). breakfree l \<and> TAB \<notin> set l"
    and lastR: "R = [] \<or> last R \<noteq> []"
  shows "doctrim (Some (join [NL] (x # R))) =
           Inr (join [NL] (lstrip x # pop_trailing_blank
             (if min_indent sys_maxsize R < sys_maxsize
              then map (\<lambda>line. rstrip (drop (min_indent sys_maxsize R) line)) R else [])))"
proof -
  let ?t = "join [NL] (x # R)"
  let ?rest = "if min_indent sys_maxsize R < sys_maxsize
              then map (\<lambda>line. rstrip (drop (min_indent sys_maxsize R) line)) R else []"
  have ne: "?t \<noteq> []" using x(1) by (rule join_Cons_nonempty)
  have "TAB \<notin> set ?t" using set_join [of "[NL]" "x # R"] clean by auto
  then have et: "expandtabs ?t = ?t" by (simp add: expandtabs_def expandtabs_from_id)
  have "last (x # R) \<noteq> []" using x(1) lastR by auto
  then have sl: "splitlines ?t = x # R" using clean by (intro splitlines_join) auto
  have sx: "strip x = lstrip x" by (simp add: strip_def x(2))
  have lx: "lstrip x \<noteq> []" using x by (intro rstripped_nonblank)
  have "pop_trailing_blank (lstrip x # ?rest) = lstrip x # pop_trailing_blank ?rest"
    using lx by (rule pop_trailing_blank_Cons)
  then have pops: "pop_leading_blank (pop_trailing_blank (lstrip x # ?rest))
      = lstrip x # pop_trailing_blank ?rest"
    using lx by simp
  show ?thesis
    unfolding doctrim_def option.case et sl Let_def list.case sx pops using ne by simp
qed

lemma join_inject:
  assumes "join [NL] A = join [NL] B" and "A \<noteq> []" and "B \<noteq> []"
    and "\<forall>l \<in> set A. NL \<notin> set l" and "\<forall>l \<in> set B. NL \<notin> set l"
  shows "A = B"
  using assms split_join [of A] split_join [of B] by metis

lemma doctrim_fixed_iff:
  assumes x: "x \<noteq> []" "rstrip x = x"
    and clean: "\<forall>l \<in> set (x # R). breakfree l \<and> TAB \<notin> set l"
    and rs: "\<forall>l \<in> set R. rstrip l = l"
    and lastR: "R = [] \<or> last R \<noteq> []"
  shows "doctrim (Some (join [NL] (x # R))) = Inr (join [NL] (x # R))
         \<longleftrightarrow> lstrip x = x \<and> (R = [] \<or> (\<exists>l \<in> set R. l \<noteq> [] \<and> lstrip l = l))"
proof
  assume c: "lstrip x = x \<and> (R = [] \<or> (\<exists>l \<in> set R. l \<noteq> [] \<and> lstrip l = l))"
  then have "strip x = x" by (simp add: strip_def x(2))
  with x(1) show "doctrim (Some (join [NL] (x # R))) = Inr (join [NL] (x # R))"
    using clean rs lastR c by (intro doctrim_fixed) auto
next
  assume fixed: "doctrim (Some (join [NL] (x # R))) = Inr (join [NL] (x # R))"
  define i where "i = min_indent sys_maxsize R"
  define rest where "rest = (if i < sys_maxsize then map (\<lambda>line. rstrip (drop i line)) R else [])"
  have "doctrim (Some (join [NL] (x # R))) = Inr (join [NL] (lstrip x # pop_trailing_blank rest))"
    unfolding rest_def i_def using x clean lastR by (rule doctrim_clean_lines)
  with fixed have j: "join [NL] (lstrip x # pop_trailing_blank rest) = join [NL] (x # R)" by simp
  have nlR: "\<forall>l \<in> set (x # R). NL \<notin> set l" using clean breakfree_no_NL by blast
  have "set l \<subseteq> set o'" if "l = rstrip (drop i o')" for l o'
    unfolding that using set_rstrip set_drop_subset by fast
  then have "\<forall>l \<in> set rest. \<exists>o' \<in> set R. set l \<subseteq> set o'"
    unfolding rest_def by (auto split: if_splits)
  then have "\<forall>l \<in> set rest. NL \<notin> set l" using nlR by fastforce
  then have "\<forall>l \<in> set (pop_trailing_blank rest). NL \<notin> set l"
    using set_pop_trailing_blank by blast
  moreover have "NL \<notin> set (lstrip x)" using nlR set_lstrip by fastforce
  ultimately have nl2: "\<forall>l \<in> set (lstrip x # pop_trailing_blank rest). NL \<notin> set l" by simp
  have eq: "lstrip x # pop_trailing_blank rest = x # R"
    using j nl2 nlR by (intro join_inject) auto
  then have lx: "lstrip x = x" and pr: "pop_trailing_blank rest = R" by simp_all
  have "R = [] \<or> (\<exists>l \<in> set R. l \<noteq> [] \<and> lstrip l = l)"
  proof (cases "R = []")
    case True
    then show ?thesis by simp
  next
    case False
    then have "rest \<noteq> []" using pr by (auto simp: pop_trailing_blank_def)
    then have lt: "i < sys_maxsize" unfolding rest_def by (auto split: if_splits)
    then have rest2: "rest = map (\<lambda>line. rstrip (drop i line)) R" by (simp add: rest_def)
    then have "length (pop_trailing_blank rest) = length rest" using pr by simp
    then have "pop_trailing_blank rest = rest" by (rule pop_trailing_blank_same_length)
    then have m: "map (\<lambda>line. rstrip (drop i line)) R = map (\<lambda>line. line) R"
      using pr rest2 by simp
    from lt have "i \<noteq> sys_maxsize" by simp
    with min_indent_attained [of sys_maxsize R]
    obtain l where l: "l \<in> set R" "lstrip l \<noteq> []" "i = length l - length (lstrip l)"
      unfolding i_def by blast
    have "rstrip (drop i l) = l" using m l(1) by (simp only: map_eq_conv)
    moreover have "drop i l = lstrip l" unfolding l(3) by (rule lstrip_drop)
    ultimately have f: "rstrip (lstrip l) = l" by simp
    from lstrip_rstrip_fixed [OF l(2)] have "l \<noteq> [] \<and> lstrip l = l" unfolding f .
    then show ?thesis using l(1) by blast
  qed
  with lx show "lstrip x = x \<and> (R = [] \<or> (\<exists>l \<in> set R. l \<noteq> [] \<and> lstrip l = l))" by simp
qed

text \<open>
  C5, amended: \<open>doctrim (doctrim s) = doctrim s\<close> holds exactly when the first line of
  \<open>doctrim s\<close> has no leading white space and, if \<open>doctrim s\<close> has further lines, one of
  them is not empty and has no leading white space. That is so for the null text, for the
  empty text and for every text whose first line (of the text with its tabs expanded) has
  a character that is not white space. \<open>doctrim\<close> raises no exception.
\<close>

theorem doctrim_idempotent_iff:
  "\<exists>t. doctrim docstring = Inr t
     \<and> (doctrim (Some t) = Inr t \<longleftrightarrow>
          (\<exists>x R. split NL t = x # R \<and> lstrip x = x
                 \<and> (R = [] \<or> (\<exists>l \<in> set R. l \<noteq> [] \<and> lstrip l = l))))
     \<and> (docstring = None \<or> docstring = Some []
          \<or> (\<exists>ds first others. docstring = Some ds
                \<and> splitlines (expandtabs ds) = first # others \<and> strip first \<noteq> [])
          \<longrightarrow> doctrim (Some t) = Inr t)"
proof -
  from doctrim_lines [of docstring] obtain T where
    T: "doctrim docstring = Inr (join [NL] T)"
       "T = [] \<or> (hd T \<noteq> [] \<and> last T \<noteq> [])"
       "\<forall>l \<in> set T. breakfree l \<and> TAB \<notin> set l \<and> rstrip l = l" by blast
  define t where "t = join [NL] T"
  have 1: "doctrim docstring = Inr t" using T(1) by (simp add: t_def)
  have 2: "doctrim (Some t) = Inr t \<longleftrightarrow>
          (\<exists>x R. split NL t = x # R \<and> lstrip x = x
                 \<and> (R = [] \<or> (\<exists>l \<in> set R. l \<noteq> [] \<and> lstrip l = l)))"
  proof (cases T)
    case Nil
    then have "t = []" by (simp add: t_def)
    then show ?thesis by (simp add: doctrim_def lstrip_def)
  next
    case (Cons x R)
    have "split NL (join [NL] T) = T"
      using T(3) breakfree_no_NL Cons by (intro split_join) auto
    then have sp: "split NL t = x # R" by (simp add: t_def Cons)
    have x: "x \<noteq> []" "rstrip x = x" using T(2,3) Cons by auto
    have lastR: "R = [] \<or> last R \<noteq> []" using T(2) Cons by auto
    have "doctrim (Some (join [NL] (x # R))) = Inr (join [NL] (x # R))
         \<longleftrightarrow> lstrip x = x \<and> (R = [] \<or> (\<exists>l \<in> set R. l \<noteq> [] \<and> lstrip l = l))"
      using x T(3) lastR unfolding Cons by (intro doctrim_fixed_iff) auto
    then show ?thesis using sp by (simp add: t_def Cons)
  qed
  have 3: "docstring = None \<or> docstring = Some []
          \<or> (\<exists>ds first others. docstring = Some ds
                \<and> splitlines (expandtabs ds) = first # others \<and> strip first \<noteq> [])
          \<longrightarrow> doctrim (Some t) = Inr t"
  proof
    assume "docstring = None \<or> docstring = Some []
          \<or> (\<exists>ds first others. docstring = Some ds
                \<and> splitlines (expandtabs ds) = first # others \<and> strip first \<noteq> [])"
    from doctrim_idempotent_nonblank [OF this] show "doctrim (Some t) = Inr t"
      using 1 by auto
  qed
  from 1 2 3 show ?thesis by blast
qed

theorem doctrim_idempotent_iff_witness:
  "doctrim (Some ''\<newline>    Title\<newline>\<newline>    body\<newline>      more\<newline>    '')
     = Inr ''Title\<newline>\<newline>body\<newline>  more''
   \<and> doctrim (Some ''Title\<newline>\<newline>body\<newline>  more'') = Inr ''Title\<newline>\<newline>body\<newline>  more''
   \<and> doctrim (Some (''  Title'' @ [TAB] @ ''\<newline>    a\<newline>      b \<newline>\<newline>''))
     = Inr ''Title\<newline>a\<newline>  b''
   \<and> doctrim (Some ''Title\<newline>a\<newline>  b'') = Inr ''Title\<newline>a\<newline>  b''
   \<and> doctrim (Some ''\<newline>b\<newline>  c'') = Inr ''b\<newline>  c''
   \<and> doctrim (Some ''b\<newline>  c'') \<noteq> Inr ''b\<newline>  c''"
  using doctrim_idempotent_iff [of "Some ''\<newline>    Title\<newline>\<newline>    body\<newline>      more\<newline>    ''"]
    doctrim_idempotent_iff [of "Some (''  Title'' @ [TAB] @ ''\<newline>    a\<newline>      b \<newline>\<newline>'')"]
    doctrim_idempotent_iff [of "Some ''\<newline>b\<newline>  c''"]
  by (simp add: run_defs)

section \<open>Blocks and headings in the assembled document\<close>

lemma loop_step_md_prefix:
  "loop_step st line = Inr st' \<Longrightarrow>
   loop_step (st\<lparr>md := m @ md st\<rparr>) line = Inr (st'\<lparr>md := m @ md st'\<rparr>)"
  by (auto simp: loop_step_def Let_def split: if_splits option.splits)

lemma body_loop_md_prefix:
  "body_loop st ls = Inr st' \<Longrightarrow>
   body_loop (st\<lparr>md := m @ md st\<rparr>) ls = Inr (st'\<lparr>md := m @ md st'\<rparr>)"
proof (induction ls arbitrary: st)
  case Nil
  then show ?case by simp
next
  case (Cons l ls)
  from Cons.prems obtain st1 where 1: "loop_step st l = Inr st1" "body_loop st1 ls = Inr st'"
    by (auto split: sum.splits)
  from loop_step_md_prefix [OF 1(1), of m] Cons.IH [OF 1(2)] show ?case by simp
qed

lemma body_loop_from_start:
  assumes "body_loop \<lparr>md = [], is_code = False, code = None, language = None\<rparr> ls = Inr st"
  shows "body_loop \<lparr>md = m, is_code = False, code = None, language = None\<rparr> ls
           = Inr (st\<lparr>md := m @ md st\<rparr>)"
  using body_loop_md_prefix [OF assms, of m] by simp

lemma body_loop_start_bound:
  assumes "body_loop \<lparr>md = [], is_code = False, code = None, language = None\<rparr> ls = Inr st"
  shows "bound_in_block st"
proof -
  have "bound_in_block \<lparr>md = [], is_code = False, code = None, language = None\<rparr>"
    by (simp add: bound_in_block_def)
  from body_loop_total [OF this, of ls] show ?thesis using assms by auto
qed


lemma doc2md_lines_run:
  assumes "doctrim docstr = Inr text" and "split NL text = first # others"
  shows "doc2md_lines docstr title =
     (case body_loop
        \<lparr>md = [replicate (max ((if find_sections (first # others) = [] then 2
                      else Min (fst ` set (find_sections (first # others)))) - 1) 1) (CHR ''#'')
                 @ '' '' @ title, [], first, []]
               @ make_toc (find_sections (first # others)),
         is_code = False, code = None, language = None\<rparr> others
      of Inl e \<Rightarrow> Inl e | Inr st \<Rightarrow> close_block st)"
proof -
  define secs where "secs = find_sections (first # others)"
  have lv: "(case secs of [] \<Rightarrow> 2 | s # ss \<Rightarrow> min_depth s ss)
              = (if secs = [] then 2 else Min (fst ` set secs))"
    by (cases secs) (simp_all add: min_depth_Min)
  show ?thesis
    unfolding doc2md_lines_def Let_def assms sum.case list.case secs_def [symmetric] lv ..
qed

lemma doc2md_join:
  "doc2md_lines docstr title = Inr ls \<Longrightarrow> doc2md docstr title = Inr (join [NL] ls)"
  by (simp add: doc2md_def)

lemma whitespace_line_empty: "rstrip l = l \<Longrightarrow> lstrip l = [] \<Longrightarrow> l = []"
  using lstrip_Nil_rstrip by fastforce

lemma convert_block_extent_lines:
  assumes "doctrim docstr = Inr text"
    and "split NL text = first # pre @ opener # block @ rest"
    and "body_loop \<lparr>md = [], is_code = False, code = None, language = None\<rparr> pre = Inr st"
    and "\<not> is_code st"
    and "startswith (lstrip opener) ''>>> '' \<or> startswith (lstrip opener) ''$ ''"
    and "\<forall>x \<in> set block. x \<noteq> []"
    and "rest = [] \<or> hd rest = []"
  shows "let sections = find_sections (first # pre @ opener # block @ rest);
             level = (if sections = [] then 2 else Min (fst ` set sections));
             top = [replicate (max (level - 1) 1) (CHR ''#'') @ '' '' @ title, [], first, []]
                   @ make_toc sections;
             lang = (if startswith (lstrip opener) ''>>> '' then ''python'' else ''bash'')
         in (\<exists>more.
               doc2md_lines docstr title =
                 Inr (top @ md st @ doc_code_block (opener # block) lang
                      @ (if rest = [] then [] else [] # more))
               \<and> doc2md docstr title =
                 Inr (join [NL] (top @ md st @ doc_code_block (opener # block) lang
                      @ (if rest = [] then [] else [] # more))))
            \<and> (\<forall>l \<in> set (split NL text). lstrip l = [] \<longrightarrow> l = [])"
proof -
  define secs where "secs = find_sections (first # pre @ opener # block @ rest)"
  define top where "top = [replicate (max ((if secs = [] then 2 else Min (fst ` set secs)) - 1) 1)
                             (CHR ''#'') @ '' '' @ title, [], first, []] @ make_toc secs"
  define lang where "lang = (if startswith (lstrip opener) ''>>> '' then ''python'' else ''bash'')"
  let ?st0 = "\<lparr>md = top, is_code = False, code = None, language = None\<rparr>"
  let ?run = "\<lambda>s ls. case body_loop s ls of Inl e \<Rightarrow> Inl e | Inr st' \<Rightarrow> close_block st'"
  have d: "doc2md_lines docstr title = ?run ?st0 (pre @ opener # block @ rest)"
    unfolding top_def secs_def by (rule doc2md_lines_run [OF assms(1,2)])
  define st1 where "st1 = st\<lparr>md := top @ md st\<rparr>"
  have p: "body_loop ?st0 pre = Inr st1"
    unfolding st1_def by (rule body_loop_from_start [OF assms(3)])
  have n1: "\<not> is_code st1" using assms(4) by (simp add: st1_def)
  define st2 where "st2 = st1\<lparr>is_code := True, language := Some lang, code := Some [opener]\<rparr>"
  have o: "loop_step st1 opener = Inr st2"
    using n1 assms(5) by (auto simp: loop_step_def st2_def lang_def)
  have s2: "is_code st2" "code st2 = Some [opener]" "language st2 = Some lang"
    "md st2 = top @ md st"
    by (simp_all add: st2_def st1_def)
  note be = body_loop_block_extent [OF s2(1,2,3) assms(6)]
  have "\<exists>more. ?run ?st0 (pre @ opener # block @ rest)
          = Inr (top @ md st @ doc_code_block (opener # block) lang
                 @ (if rest = [] then [] else [] # more))"
  proof (cases "rest = []")
    case True
    have "?run ?st0 (pre @ opener # block) = ?run st2 block"
      by (simp add: body_loop_append p o)
    also have "\<dots> = Inr (md st2 @ doc_code_block ([opener] @ block) lang)"
      using be by simp
    finally show ?thesis using True s2(4) by simp
  next
    case False
    with assms(7) obtain rest' where r: "rest = [] # rest'" by (cases rest) auto
    define st3 where "st3 = st2\<lparr>code := Some ([opener] @ block), is_code := False,
                           md := md st2 @ doc_code_block ([opener] @ block) lang @ [[]]\<rparr>"
    have "body_loop st2 (block @ [] # rest') = body_loop st3 rest'"
      unfolding st3_def using be by simp
    then have 1: "?run ?st0 (pre @ opener # block @ rest) = ?run st3 rest'"
      by (simp add: body_loop_append p o r)
    have "bound_in_block st3" by (simp add: bound_in_block_def st3_def)
    from run_total [OF this, of rest'] obtain b where
      "?run st3 rest' = Inr (md st3 @ b)" by blast
    then have "?run ?st0 (pre @ opener # block @ rest)
          = Inr (top @ md st @ doc_code_block (opener # block) lang @ [] # b)"
      using 1 s2(4) by (simp add: st3_def)
    then show ?thesis using False by auto
  qed
  then obtain more where m: "doc2md_lines docstr title
          = Inr (top @ md st @ doc_code_block (opener # block) lang
                 @ (if rest = [] then [] else [] # more))"
    using d by auto
  have w: "\<forall>l \<in> set (split NL text). lstrip l = [] \<longrightarrow> l = []"
    using doctrim_normalized_lines [OF assms(1)] whitespace_line_empty by blast
  show ?thesis
    unfolding Let_def secs_def [symmetric] top_def [symmetric] lang_def [symmetric]
    using m doc2md_join [OF m] w by blast
qed

text \<open>
  C3 as stated: in \<^verbatim>\<open>doc2md\<close> every line of nonzero length that follows the start of a
  block, a line of white space only too, is consumed into the block. In the text below
  the line after \<open>$ ls\<close> is two spaces: \<open>doctrim\<close> strips it to the empty line, which ends
  the block, and \<open>out\<close> is left outside the fence.
\<close>

theorem whitespace_line_ends_block_counterexample:
  "doc2md_lines (Some ''T\<newline>\<newline>$ ls\<newline>  \<newline>out'') ''t''
     = Inr [''# t'', [], ''T'', [], [], ''```bash'', ''$ ls'', ''```'', [], ''out'']"
  by (simp add: run_defs)

text \<open>
  C3, amended: in \<^verbatim>\<open>doc2md\<close> the lines are those of the normalized text, in which a line
  of white space only is empty. When a line opens a block (the loop is outside a block
  when it reaches the line, and the line without its leading white space starts with a
  prompt), the lines after it that are not empty are consumed into the block; the block
  ends at the first empty line, which is emitted after the closing fence and is not part
  of the block; and when the lines end inside the block, the fenced block ends the
  document, with no empty line after it.
\<close>

theorem convert_block_extent:
  assumes "doctrim docstr = Inr text"
    and "split NL text = first # pre @ opener # post"
    and "body_loop \<lparr>md = [], is_code = False, code = None, language = None\<rparr> pre = Inr st"
    and "\<not> is_code st"
    and "startswith (lstrip opener) ''>>> '' \<or> startswith (lstrip opener) ''$ ''"
  shows "let sections = find_sections (first # pre @ opener # post);
             level = (if sections = [] then 2 else Min (fst ` set sections));
             top = [replicate (max (level - 1) 1) (CHR ''#'') @ '' '' @ title, [], first, []]
                   @ make_toc sections;
             lang = (if startswith (lstrip opener) ''>>> '' then ''python'' else ''bash'');
             block = takeWhile (\<lambda>l. l \<noteq> []) post;
             rest = dropWhile (\<lambda>l. l \<noteq> []) post
         in (\<exists>more.
               doc2md_lines docstr title =
                 Inr (top @ md st @ doc_code_block (opener # block) lang
                      @ (if rest = [] then [] else [] # more))
               \<and> doc2md docstr title =
                 Inr (join [NL] (top @ md st @ doc_code_block (opener # block) lang
                      @ (if rest = [] then [] else [] # more))))
            \<and> (\<forall>l \<in> set (split NL text). lstrip l = [] \<longrightarrow> l = [])"
proof -
  define block where "block = takeWhile (\<lambda>l. l \<noteq> []) post"
  define rest where "rest = dropWhile (\<lambda>l. l \<noteq> []) post"
  have post: "post = block @ rest" by (simp add: block_def rest_def)
  have a2: "split NL text = first # pre @ opener # block @ rest" using assms(2) post by simp
  have a6: "\<forall>x \<in> set block. x \<noteq> []" unfolding block_def by (auto dest: set_takeWhileD)
  have a7: "rest = [] \<or> hd rest = []"
    unfolding rest_def using hd_dropWhile [of "\<lambda>l. l \<noteq> []" post] by blast
  have fs: "find_sections (first # pre @ opener # post)
              = find_sections (first # pre @ opener # block @ rest)"
    by (simp only: post)
  note r = convert_block_extent_lines [OF assms(1) a2 assms(3,4,5) a6 a7, of title, unfolded Let_def]
  show ?thesis
    unfolding Let_def block_def [symmetric] rest_def [symmetric] fs by (rule r)
qed

theorem convert_block_extent_witness:
  "doc2md_lines (Some ''T\<newline>intro\<newline>$ ls\<newline>out\<newline>\<newline>end\<newline>$ pwd'') ''demo''
     = Inr [''# demo'', [], ''T'', [], ''intro'', ''```bash'', ''$ ls'', ''out'', ''```'', [],
            ''end'', ''```bash'', ''$ pwd'', ''```'']
   \<and> doc2md (Some ''T\<newline>intro\<newline>$ ls\<newline>out\<newline>\<newline>end\<newline>$ pwd'') ''demo''
     = Inr ''# demo\<newline>\<newline>T\<newline>\<newline>intro\<newline>```bash\<newline>$ ls\<newline>out\<newline>```\<newline>\<newline>end\<newline>```bash\<newline>$ pwd\<newline>```''"
proof -
  let ?d = "Some ''T\<newline>intro\<newline>$ ls\<newline>out\<newline>\<newline>end\<newline>$ pwd''"
  have 1: "doctrim ?d = Inr ''T\<newline>intro\<newline>$ ls\<newline>out\<newline>\<newline>end\<newline>$ pwd''"
    by (simp add: run_defs)
  have 2: "split NL ''T\<newline>intro\<newline>$ ls\<newline>out\<newline>\<newline>end\<newline>$ pwd''
             = ''T'' # [''intro''] @ ''$ ls'' # [''out'', [], ''end'', ''$ pwd'']"
    by simp
  have 3: "body_loop \<lparr>md = [], is_code = False, code = None, language = None\<rparr> [''intro'']
             = Inr \<lparr>md = [''intro''], is_code = False, code = None, language = None\<rparr>"
    by (simp add: loop_step_def lstrip_def isspace_def startswith_def)
  have 4: "\<not> is_code \<lparr>md = [''intro''], is_code = False, code = None, language = None\<rparr>"
    by simp
  have 5: "startswith (lstrip ''$ ls'') ''>>> '' \<or> startswith (lstrip ''$ ls'') ''$ ''"
    by (simp add: startswith_def lstrip_def isspace_def)
  have 8: "split NL ''T\<newline>intro\<newline>$ ls\<newline>out\<newline>\<newline>end\<newline>$ pwd''
             = ''T'' # [''intro'', ''$ ls'', ''out'', [], ''end''] @ ''$ pwd'' # []"
    by simp
  have 9: "body_loop \<lparr>md = [], is_code = False, code = None, language = None\<rparr>
             [''intro'', ''$ ls'', ''out'', [], ''end'']
             = Inr \<lparr>md = [''intro'', ''```bash'', ''$ ls'', ''out'', ''```'', [], ''end''],
                    is_code = False, code = Some [''$ ls'', ''out''], language = Some ''bash''\<rparr>"
    by (simp add: loop_step_def lstrip_def isspace_def startswith_def doc_code_block_def
        code_block_def)
  have 10: "\<not> is_code \<lparr>md = [''intro'', ''```bash'', ''$ ls'', ''out'', ''```'', [], ''end''],
                    is_code = False, code = Some [''$ ls'', ''out''], language = Some ''bash''\<rparr>"
    by simp
  have 11: "startswith (lstrip ''$ pwd'') ''>>> '' \<or> startswith (lstrip ''$ pwd'') ''$ ''"
    by (simp add: startswith_def lstrip_def isspace_def)
  show ?thesis
    using convert_block_extent [OF 1 2 3 4 5, of "''demo''"]
      convert_block_extent [OF 1 8 9 10 11, of "''demo''"]
    by (simp add: run_defs)
qed

text \<open>
  C10: the headings and the table of contents are computed from all lines of the
  normalized text before any block is recognized. So every line of the heading pattern,
  wherever it stands, is among the scanned headings, has its entry in the table of
  contents, and the level of the top heading is at most its depth; and when the loop
  reaches such a line inside a block, the line is consumed into that block and fenced
  with it, and is a heading all the same.
\<close>

theorem heading_line_counts_anywhere:
  assumes "doctrim docstr = Inr text" and "split NL text = first # others"
    and "h \<in> set (first # others)"
    and "0 < n" and "h = replicate n (CHR ''#'') @ SP # t"
  shows "let sections = find_sections (first # others);
             level = Min (fst ` set sections);
             top = [replicate (max (level - 1) 1) (CHR ''#'') @ '' '' @ title, [], first, []]
                   @ make_toc sections
         in (n, t) \<in> set sections \<and> level \<le> n
            \<and> toc_ref level (n, t) \<in> set (make_toc sections)
            \<and> (\<exists>body. doc2md_lines docstr title = Inr (top @ body)
                      \<and> doc2md docstr title = Inr (join [NL] (top @ body)))
            \<and> (\<forall>pre post st.
                  others = pre @ h # post
                  \<and> body_loop \<lparr>md = [], is_code = False, code = None, language = None\<rparr> pre
                      = Inr st
                  \<and> is_code st
                  \<longrightarrow> (\<exists>c lang more. code st = Some c \<and> language st = Some lang
                        \<and> doc2md_lines docstr title =
                            Inr (top @ md st
                                 @ doc_code_block (c @ h # takeWhile (\<lambda>l. l \<noteq> []) post) lang
                                 @ more)
                        \<and> doc2md docstr title =
                            Inr (join [NL] (top @ md st
                                 @ doc_code_block (c @ h # takeWhile (\<lambda>l. l \<noteq> []) post) lang
                                 @ more))))"
proof -
  define secs where "secs = find_sections (first # others)"
  define level where "level = Min (fst ` set secs)"
  define top where "top = [replicate (max (level - 1) 1) (CHR ''#'') @ '' '' @ title, [], first, []]
                          @ make_toc secs"
  let ?st0 = "\<lparr>md = top, is_code = False, code = None, language = None\<rparr>"
  let ?run = "\<lambda>s ls. case body_loop s ls of Inl e \<Rightarrow> Inl e | Inr st' \<Rightarrow> close_block st'"
  from assms(3) obtain xs ys where sp: "first # others = xs @ h # ys"
    by (meson split_list)
  have "secs = find_sections xs @ find_sections [h] @ find_sections ys"
    unfolding secs_def sp by (simp only: find_sections_append [symmetric]) simp
  then have mem: "(n, t) \<in> set secs"
    using find_sections_heading [OF assms(4), of t] assms(5) by simp
  then obtain s ss where ss: "secs = s # ss" by (cases secs) auto
  have le: "level \<le> n"
    unfolding level_def using mem by (intro Min_le) (auto intro: image_eqI [where x = "(n, t)"])
  have "make_toc secs = map (toc_ref level) secs"
    by (simp add: make_toc_def ss min_depth_Min level_def)
  then have tm: "toc_ref level (n, t) \<in> set (make_toc secs)" using mem by simp
  have ne: "secs \<noteq> []" using ss by simp
  have d: "doc2md_lines docstr title = ?run ?st0 others"
    using doc2md_lines_run [OF assms(1,2), of title] ne
    unfolding secs_def [symmetric] top_def level_def by simp
  have "bound_in_block ?st0" by (simp add: bound_in_block_def)
  from run_total [OF this, of others] obtain body where "?run ?st0 others = Inr (top @ body)"
    by auto
  then have b: "doc2md_lines docstr title = Inr (top @ body)" using d by simp
  have cons: "\<exists>c lang more. code st = Some c \<and> language st = Some lang
                \<and> doc2md_lines docstr title =
                    Inr (top @ md st
                         @ doc_code_block (c @ h # takeWhile (\<lambda>l. l \<noteq> []) post) lang @ more)
                \<and> doc2md docstr title =
                    Inr (join [NL] (top @ md st
                         @ doc_code_block (c @ h # takeWhile (\<lambda>l. l \<noteq> []) post) lang @ more))"
    if o: "others = pre @ h # post"
      and p: "body_loop \<lparr>md = [], is_code = False, code = None, language = None\<rparr> pre = Inr st"
      and ic: "is_code st" for pre post st
  proof -
    from body_loop_start_bound [OF p] ic obtain c lang
      where cl: "code st = Some c" "language st = Some lang"
      by (auto simp: bound_in_block_def)
    define st1 where "st1 = st\<lparr>md := top @ md st\<rparr>"
    have p1: "body_loop ?st0 pre = Inr st1"
      unfolding st1_def by (rule body_loop_from_start [OF p])
    have s1: "is_code st1" "code st1 = Some c" "language st1 = Some lang"
      using ic cl by (simp_all add: st1_def)
    have hne: "h \<noteq> []" using assms(5) by simp
    from run_in_block [OF s1, of "h # post"] obtain more where
      "?run st1 (h # post)
         = Inr (md st1 @ doc_code_block (c @ takeWhile (\<lambda>l. l \<noteq> []) (h # post)) lang @ more)"
      by blast
    then have "?run ?st0 others
         = Inr (top @ md st @ doc_code_block (c @ h # takeWhile (\<lambda>l. l \<noteq> []) post) lang @ more)"
      using hne by (simp add: o body_loop_append p1 st1_def)
    then have m: "doc2md_lines docstr title
         = Inr (top @ md st @ doc_code_block (c @ h # takeWhile (\<lambda>l. l \<noteq> []) post) lang @ more)"
      using d by simp
    show ?thesis using cl m doc2md_join [OF m] by blast
  qed
  show ?thesis
    unfolding Let_def secs_def [symmetric] level_def [symmetric] top_def [symmetric]
    using mem le tm b doc2md_join [OF b] cons by blast
qed

theorem heading_line_counts_anywhere_witness:
  "doc2md_lines (Some ''Title\<newline>intro\<newline>$ ls\<newline>out\<newline># comment\<newline>\<newline>### A'') ''demo''
     = Inr [''# demo'', [], ''Title'', [], ''- [comment](#comment)'', ''        - [A](#a)'',
            ''intro'', ''```bash'', ''$ ls'', ''out'', ''# comment'', ''```'', [], ''### A'']
   \<and> doc2md (Some ''Title\<newline>intro\<newline>$ ls\<newline>out\<newline># comment\<newline>\<newline>### A'') ''demo''
     = Inr ''# demo\<newline>\<newline>Title\<newline>\<newline>- [comment](#comment)\<newline>        - [A](#a)\<newline>intro\<newline>```bash\<newline>$ ls\<newline>out\<newline># comment\<newline>```\<newline>\<newline>### A''
   \<and> toc_ref 1 (1, ''comment'') = ''- [comment](#comment)''"
proof -
  let ?d = "Some ''Title\<newline>intro\<newline>$ ls\<newline>out\<newline># comment\<newline>\<newline>### A''"
  have 1: "doctrim ?d = Inr ''Title\<newline>intro\<newline>$ ls\<newline>out\<newline># comment\<newline>\<newline>### A''"
    by (simp add: run_defs)
  have 2: "split NL ''Title\<newline>intro\<newline>$ ls\<newline>out\<newline># comment\<newline>\<newline>### A''
             = ''Title'' # [''intro'', ''$ ls'', ''out'', ''# comment'', [], ''### A'']"
    by simp
  have 3: "''# comment'' \<in> set (''Title'' # [''intro'', ''$ ls'', ''out'', ''# comment'', [], ''### A''])"
    by simp
  have 4: "(0::nat) < 1" by simp
  have 5: "''# comment'' = replicate 1 (CHR ''#'') @ SP # ''comment''" by simp
  show ?thesis
    using heading_line_counts_anywhere [OF 1 2 3 4 5, of "''demo''"]
    by (simp add: run_defs)
qed

end
